theory Spec2Isabelle
  imports Complex_Main "HOL-Library.Word"
begin

unbundle bit_operations_syntax

section \<open>The histogram accumulation kernel of BinSumsBoosting.cpp\<close>

text \<open>
  The kernel reads four flat arrays through raw pointers and adds into a buffer of bins.
  Arrays are lists and a pointer is an index into its list. A read at an index that is
  not below the length of the list is undefined behaviour in the C++; here it is a
  \<open>fault\<close>, so that a run that returns \<open>Inr\<close> has read inside every array.

  The type of the numbers is the type variable \<open>'f\<close>: the definitions use only its \<open>+\<close>,
  \<open>*\<close> and \<open>0\<close> and assume no law about them, so that they can be read with the rounded
  arithmetic of \<open>FloatFast\<close> (the last section of the model) as well as with exact
  arithmetic. A statement that regroups sums names the laws of addition it needs.
  \<open>size_t\<close> counters that are stored (\<open>countSamples\<close>, \<open>countOccurrences\<close>) are 64-bit
  words; sizes of arrays that exist in memory are \<open>nat\<close>.

  \<open>EBM_ASSERT\<close> and the blocks under \<open>#ifndef NDEBUG\<close> exist in debug builds only. The
  model is the release build, with one debug variable kept, \<open>weightTotalDebug\<close>, which
  nothing else reads: the running sum of the weights that the assertions of lines
  129-131 and 351-353 compare the \<open>weightTotal\<close> of the bag with.
\<close>

datatype fault =
    OccurrenceRead      \<comment> \<open>\<open>*pCountOccurrences\<close> outside the occurrence array\<close>
  | WeightRead          \<comment> \<open>\<open>*pWeight\<close> outside the weight array\<close>
  | GradientRead        \<comment> \<open>\<open>*pGradientAndHessian\<close> or \<open>*(pGradientAndHessian + 1)\<close> outside the array\<close>
  | InputRead           \<comment> \<open>\<open>*pInputData\<close> outside the packed words of the term\<close>
  | BinAccess           \<comment> \<open>bin index outside the bin buffer\<close>
  | GradientPairAccess  \<comment> \<open>\<open>pGradientPair[iScore]\<close> outside the pairs of the bin\<close>
  | ShiftOutOfRange     \<comment> \<open>a shift by the word size or more\<close>
  | DivideByZero
  | TermAccess          \<comment> \<open>\<open>GetTerms()[iTerm]\<close> outside the terms\<close>

record 'f GradientPair =
  m_sumGradients :: 'f
  m_sumHessians :: 'f

record 'f Bin =
  m_cSamples :: "64 word"
  m_weight :: 'f
  m_aGradientPairs :: "'f GradientPair list"

text \<open>
  What \<open>Func\<close> reads before its loops: the template parameters as they reach the body
  (\<open>bClassification\<close>, \<open>cScores\<close>), the training set (\<open>cSamples\<close>, the interleaved
  gradients and hessians, the packed words of the term), the inner bag, and the pack
  width of the term with the field width \<open>GetCountBits\<close> gives for it.
\<close>

record 'f KernelInput =
  in_bClassification :: bool
  in_cScores :: nat
  in_cSamples :: nat
  in_aCountOccurrences :: "64 word list"
  in_aWeights :: "'f list"
  in_weightTotal :: 'f
  in_aGradientsAndHessians :: "'f list"
  in_aInputData :: "64 word list"
  in_cItemsPerBitPack :: nat
  in_cBitsPerItemMax :: nat

text \<open>The local variables that live across loop iterations, and the bin buffer.\<close>

record 'f KernelState =
  aBins :: "'f Bin list"
  pCountOccurrences :: nat
  pWeight :: nat
  pInputData :: nat
  pGradientAndHessian :: nat
  weightTotalDebug :: 'f

text \<open>
  \<open>StorageDataType\<close> and \<open>k_cBitsForStorageType\<close> are declared outside this file; the
  comment at lines 596-597 names the packing structures as 64-bit.
\<close>

definition k_cBitsForStorageType :: nat where
  "k_cBitsForStorageType = 64"

text \<open>The step of the pointer into the gradients: \<open>bClassification ? 2 : 1\<close>.\<close>

definition stride :: "bool \<Rightarrow> nat" where
  "stride bClassification = (if bClassification then 2 else 1)"

subsection \<open>The loop over scores (lines 99-119 and 302-322)\<close>

function score_loop ::
  "bool \<Rightarrow> nat \<Rightarrow> 'f list \<Rightarrow> 'f \<Rightarrow> nat \<Rightarrow> nat \<Rightarrow> ('f::{plus,times}) GradientPair list
     \<Rightarrow> fault + (nat \<times> 'f GradientPair list)" where
  "score_loop bClassification cScores aGH weight iScore p gps =
     (if length aGH \<le> p then Inl GradientRead
      else if length gps \<le> iScore then Inl GradientPairAccess
      else if bClassification \<and> length aGH \<le> p + 1 then Inl GradientRead
      else
        let gradient = aGH ! p;
            gp1 = (gps ! iScore)\<lparr>m_sumGradients := m_sumGradients (gps ! iScore) + gradient * weight\<rparr>;
            gp2 = (if bClassification
                   then gp1\<lparr>m_sumHessians := m_sumHessians gp1 + (aGH ! (p + 1)) * weight\<rparr>
                   else gp1);
            gps' = gps[iScore := gp2];
            p' = p + stride bClassification;
            iScore' = iScore + 1
        in if iScore' < cScores
           then score_loop bClassification cScores aGH weight iScore' p' gps'
           else Inr (p', gps'))"
  by pat_completeness auto
termination
  by (relation "measure (\<lambda>(bC, cScores, aGH, w, iScore, p, gps). cScores - iScore)") auto

declare score_loop.simps [simp del]

subsection \<open>The zero-dimension accumulator (lines 32-134)\<close>

text \<open>One pass of the outer \<open>do\<close> body, lines 77-119: the bin is the first of the buffer.\<close>

definition ZeroDim_sample ::
  "('f::{plus,times}) KernelInput \<Rightarrow> 'f KernelState \<Rightarrow> fault + 'f KernelState" where
  "ZeroDim_sample inp st =
     (if length (in_aCountOccurrences inp) \<le> pCountOccurrences st then Inl OccurrenceRead
      else if length (in_aWeights inp) \<le> pWeight st then Inl WeightRead
      else case aBins st of
        [] \<Rightarrow> Inl BinAccess
      | pBin # rest \<Rightarrow>
          let cOccurences = in_aCountOccurrences inp ! pCountOccurrences st;
              weight = in_aWeights inp ! pWeight st
          in (case score_loop (in_bClassification inp) (in_cScores inp)
                     (in_aGradientsAndHessians inp) weight 0 (pGradientAndHessian st)
                     (m_aGradientPairs pBin) of
                Inl e \<Rightarrow> Inl e
              | Inr (p', gps') \<Rightarrow>
                  Inr (st\<lparr>aBins := (pBin\<lparr>m_cSamples := m_cSamples pBin + cOccurences,
                                           m_weight := m_weight pBin + weight,
                                           m_aGradientPairs := gps'\<rparr>) # rest,
                          pCountOccurrences := pCountOccurrences st + 1,
                          pWeight := pWeight st + 1,
                          pGradientAndHessian := p',
                          weightTotalDebug := weightTotalDebug st + weight\<rparr>)))"

lemma ZeroDim_sample_advances:
  "ZeroDim_sample inp st = Inr st' \<Longrightarrow>
     pCountOccurrences st < length (in_aCountOccurrences inp) \<and>
     pCountOccurrences st' = pCountOccurrences st + 1"
  by (auto simp: ZeroDim_sample_def Let_def split: if_splits list.splits sum.splits prod.splits)

text \<open>The outer \<open>do ... while(pGradientAndHessiansEnd != pGradientAndHessian)\<close>, lines 64-127.\<close>

function ZeroDim_loop ::
  "('f::{plus,times}) KernelInput \<Rightarrow> nat \<Rightarrow> 'f KernelState \<Rightarrow> fault + 'f KernelState" where
  "ZeroDim_loop inp pGradientAndHessiansEnd st =
     (case ZeroDim_sample inp st of
        Inl e \<Rightarrow> Inl e
      | Inr st' \<Rightarrow>
          if pGradientAndHessiansEnd \<noteq> pGradientAndHessian st'
          then ZeroDim_loop inp pGradientAndHessiansEnd st'
          else Inr st')"
  by pat_completeness auto
termination
  by (relation "measure (\<lambda>(inp, pEnd, st).
        length (in_aCountOccurrences inp) - pCountOccurrences st)")
     (auto dest!: ZeroDim_sample_advances)

declare ZeroDim_loop.simps [simp del]

definition init_state :: "('f::zero) Bin list \<Rightarrow> 'f KernelState" where
  "init_state bins =
     \<lparr>aBins = bins, pCountOccurrences = 0, pWeight = 0, pInputData = 0,
      pGradientAndHessian = 0, weightTotalDebug = 0\<rparr>"

definition BinSumsBoostingZeroDimensions_Func ::
  "('f::{plus,times,zero}) KernelInput \<Rightarrow> 'f Bin list \<Rightarrow> fault + 'f KernelState" where
  "BinSumsBoostingZeroDimensions_Func inp bins =
     ZeroDim_loop inp
       (stride (in_bClassification inp) * in_cScores inp * in_cSamples inp)
       (init_state bins)"

subsection \<open>The bit-packed accumulator (lines 197-356)\<close>

text \<open>The body of the inner \<open>do\<close> for one decoded bin index, lines 275-322.\<close>

definition Internal_sample ::
  "('f::{plus,times}) KernelInput \<Rightarrow> nat \<Rightarrow> 'f KernelState \<Rightarrow> fault + 'f KernelState" where
  "Internal_sample inp iTensorBin st =
     (if length (in_aCountOccurrences inp) \<le> pCountOccurrences st then Inl OccurrenceRead
      else if length (in_aWeights inp) \<le> pWeight st then Inl WeightRead
      else if length (aBins st) \<le> iTensorBin then Inl BinAccess
      else
        let pBin = aBins st ! iTensorBin;
            cOccurences = in_aCountOccurrences inp ! pCountOccurrences st;
            weight = in_aWeights inp ! pWeight st
        in case score_loop (in_bClassification inp) (in_cScores inp)
                  (in_aGradientsAndHessians inp) weight 0 (pGradientAndHessian st)
                  (m_aGradientPairs pBin) of
             Inl e \<Rightarrow> Inl e
           | Inr (p', gps') \<Rightarrow>
               Inr (st\<lparr>aBins := (aBins st)[iTensorBin :=
                                    pBin\<lparr>m_cSamples := m_cSamples pBin + cOccurences,
                                         m_weight := m_weight pBin + weight,
                                         m_aGradientPairs := gps'\<rparr>],
                       pCountOccurrences := pCountOccurrences st + 1,
                       pWeight := pWeight st + 1,
                       pGradientAndHessian := p',
                       weightTotalDebug := weightTotalDebug st + weight\<rparr>))"

lemma Internal_sample_advances:
  "Internal_sample inp i st = Inr st' \<Longrightarrow>
     pCountOccurrences st < length (in_aCountOccurrences inp) \<and>
     pCountOccurrences st' = pCountOccurrences st + 1"
  by (auto simp: Internal_sample_def Let_def split: if_splits sum.splits prod.splits)

text \<open>
  A right shift by the width of the word or more is undefined in C++: executing it is a
  fault here, whether or not the shifted value is used afterwards.
\<close>

definition shift_right :: "64 word \<Rightarrow> nat \<Rightarrow> fault + 64 word" where
  "shift_right w n =
     (if n < k_cBitsForStorageType then Inr (drop_bit n w) else Inl ShiftOutOfRange)"

text \<open>
  The inner \<open>do ... while(0 != cItemsRemaining)\<close>, lines 271-334. The shift of line 330
  is executed after every sample, also after the last one of a word. \<open>cItemsRemaining\<close>
  is a \<open>size_t\<close>: decrementing 0 wraps to \<open>2^64 - 1\<close>.
\<close>

function Internal_item_loop ::
  "('f::{plus,times}) KernelInput \<Rightarrow> 64 word \<Rightarrow> 64 word \<Rightarrow> nat \<Rightarrow> 'f KernelState
     \<Rightarrow> fault + 'f KernelState" where
  "Internal_item_loop inp maskBits iTensorBinCombined cItemsRemaining st =
     (case Internal_sample inp (unat (maskBits AND iTensorBinCombined)) st of
        Inl e \<Rightarrow> Inl e
      | Inr st' \<Rightarrow>
          (case shift_right iTensorBinCombined (in_cBitsPerItemMax inp) of
             Inl e \<Rightarrow> Inl e
           | Inr iTensorBinCombined' \<Rightarrow>
               let cItemsRemaining' = (cItemsRemaining + 2 ^ 64 - 1) mod 2 ^ 64
               in if 0 \<noteq> cItemsRemaining'
                  then Internal_item_loop inp maskBits iTensorBinCombined' cItemsRemaining' st'
                  else Inr st'))"
  by pat_completeness auto
termination
  by (relation "measure (\<lambda>(inp, m, w, n, st).
        length (in_aCountOccurrences inp) - pCountOccurrences st)")
     (auto dest!: Internal_sample_advances)

declare Internal_item_loop.simps [simp del]

lemma Internal_item_loop_advances:
  "Internal_item_loop inp m w n st = Inr st' \<Longrightarrow>
     pCountOccurrences st < pCountOccurrences st' \<and>
     pCountOccurrences st' \<le> length (in_aCountOccurrences inp)"
proof (induction inp m w n st rule: Internal_item_loop.induct)
  case (1 inp m w n st)
  from "1.prems" obtain st1 where s1: "Internal_sample inp (unat (m AND w)) st = Inr st1"
    by (subst (asm) Internal_item_loop.simps) (auto split: sum.splits)
  from "1.prems" s1 obtain w' where w': "shift_right w (in_cBitsPerItemMax inp) = Inr w'"
    by (subst (asm) Internal_item_loop.simps) (auto split: sum.splits)
  note adv = Internal_sample_advances [OF s1]
  show ?case
  proof (cases "(n + 2 ^ 64 - 1) mod 2 ^ 64 = 0")
    case True
    with "1.prems" s1 w' have "st' = st1"
      by (subst (asm) Internal_item_loop.simps) (simp add: Let_def)
    with adv show ?thesis by simp
  next
    case False
    with "1.prems" s1 w' have
      "Internal_item_loop inp m w' ((n + 2 ^ 64 - 1) mod 2 ^ 64) st1 = Inr st'"
      by (subst (asm) Internal_item_loop.simps) (simp add: Let_def)
    from "1.IH" [OF s1 w' refl _ this] False adv show ?thesis by simp
  qed
qed

text \<open>
  Lines 252-349 from the label \<open>one_last_loop\<close>: read a word, take \<open>cItemsRemaining\<close>
  fields from it, then test the outer loop (line 335, back to line 264 with a full word)
  and after it the tail test (line 338, back to the label with the remaining count and
  the true end as exit). At line 342 the loop at 335 has just ended, so the pointer is
  at \<open>pGradientAndHessiansExit\<close>, which \<open>Func\<close> sets at or before the true end.
\<close>

function Internal_word_loop ::
  "('f::{plus,times}) KernelInput \<Rightarrow> 64 word \<Rightarrow> nat \<Rightarrow> nat \<Rightarrow> nat \<Rightarrow> 'f KernelState
     \<Rightarrow> fault + 'f KernelState" where
  "Internal_word_loop inp maskBits pTrueEnd pExit cItemsRemaining st =
     (if length (in_aInputData inp) \<le> pInputData st then Inl InputRead
      else
        case Internal_item_loop inp maskBits (in_aInputData inp ! pInputData st)
               cItemsRemaining (st\<lparr>pInputData := pInputData st + 1\<rparr>) of
          Inl e \<Rightarrow> Inl e
        | Inr st' \<Rightarrow>
            if pExit \<noteq> pGradientAndHessian st'
            then Internal_word_loop inp maskBits pTrueEnd pExit (in_cItemsPerBitPack inp) st'
            else if pTrueEnd \<noteq> pGradientAndHessian st'
            then (if in_cScores inp * stride (in_bClassification inp) = 0 then Inl DivideByZero
                  else Internal_word_loop inp maskBits pTrueEnd pTrueEnd
                         ((pTrueEnd - pGradientAndHessian st')
                            div (in_cScores inp * stride (in_bClassification inp))) st')
            else Inr st')"
  by pat_completeness auto
termination
  by (relation "measure (\<lambda>(inp, m, te, ex, n, st).
        length (in_aCountOccurrences inp) - pCountOccurrences st)")
     (auto dest!: Internal_item_loop_advances)

declare Internal_word_loop.simps [simp del]

definition BinSumsBoostingInternal_Func ::
  "('f::{plus,times,zero}) KernelInput \<Rightarrow> 'f Bin list \<Rightarrow> fault + 'f KernelState" where
  "BinSumsBoostingInternal_Func inp bins =
     (if \<not> (1 \<le> in_cBitsPerItemMax inp \<and> in_cBitsPerItemMax inp \<le> k_cBitsForStorageType)
      then Inl ShiftOutOfRange
      else
        let maskBits = drop_bit (k_cBitsForStorageType - in_cBitsPerItemMax inp) (NOT 0 :: 64 word);
            pTrueEnd = stride (in_bClassification inp) * in_cScores inp * in_cSamples inp
        in if in_cSamples inp \<le> in_cItemsPerBitPack inp
           then Internal_word_loop inp maskBits pTrueEnd pTrueEnd (in_cSamples inp)
                  (init_state bins)
           else if in_cItemsPerBitPack inp = 0 then Inl DivideByZero
           else Internal_word_loop inp maskBits pTrueEnd
                  (pTrueEnd - stride (in_bClassification inp) * in_cScores inp *
                     ((in_cSamples inp - 1) mod in_cItemsPerBitPack inp + 1))
                  (in_cItemsPerBitPack inp) (init_state bins))"

subsection \<open>Dispatch on class count and pack width (lines 137-189 and 359-619)\<close>

text \<open>
  The constants and helpers of \<open>ebm_internal.hpp\<close> and \<open>BoosterShell.hpp\<close> that the
  dispatcher uses are declared outside \<open>BinSumsBoosting.cpp\<close>; they are parameters here.
  \<open>k_packChain\<close> is the finite chain of template arguments that
  \<open>BinSumsBoostingSIMDPacking\<close> is instantiated with: \<open>k_cItemsPerBitPackMax\<close>, then
  \<open>GetNextCountItemsBitPacked\<close> of each, up to the last one before
  \<open>k_cItemsPerBitPackDynamic\<close>, for which the template is specialized (lines 457-477).
\<close>

record ebm_internal =
  k_cCompilerClassesMax :: int
  k_regression :: int
  k_dynamicClassification :: int
  k_cItemsPerBitPackDynamic :: int
  k_packChain :: "int list"
  k_bUseSIMD :: bool
  k_illegalTermIndex :: nat
  IsClassification :: "int \<Rightarrow> bool"
  GetCountScores :: "int \<Rightarrow> nat"
  GetCountBits :: "nat \<Rightarrow> nat"

text \<open>
  Modelled from the spec: the macros \<open>GET_COUNT_CLASSES\<close> and \<open>GET_ITEMS_PER_BIT_PACK\<close>
  are not under src. A fixed specialization uses its compile-time constant and the dynamic
  one the value of the run (spec 4.3).
\<close>

definition GET_COUNT_CLASSES :: "ebm_internal \<Rightarrow> int \<Rightarrow> int \<Rightarrow> int" where
  "GET_COUNT_CLASSES h cCompilerClasses cRuntimeClasses =
     (if cCompilerClasses = k_dynamicClassification h then cRuntimeClasses else cCompilerClasses)"

definition GET_ITEMS_PER_BIT_PACK :: "ebm_internal \<Rightarrow> int \<Rightarrow> int \<Rightarrow> int" where
  "GET_ITEMS_PER_BIT_PACK h compilerBitPack runtimeBitPack =
     (if compilerBitPack = k_cItemsPerBitPackDynamic h then runtimeBitPack else compilerBitPack)"

text \<open>What the kernel reads of the booster core, its training set, its terms and the inner bag.\<close>

record 'f BoosterCore =
  GetCountClasses :: int
  GetCountSamples :: nat
  GetGradientsAndHessiansPointer :: "'f list"
  GetInputDataPointer :: "64 word list list"
  GetTerms_GetBitPack :: "int list"

record 'f InnerBag =
  GetCountOccurrences :: "64 word list"
  GetWeights :: "'f list"
  GetWeightTotal :: 'f

text \<open>An instantiated accumulator, named by its template arguments.\<close>

datatype accumulator =
    ZeroDimensions int    \<comment> \<open>\<open>BinSumsBoostingZeroDimensions<cCompilerClasses>\<close>\<close>
  | Internal int int      \<comment> \<open>\<open>BinSumsBoostingInternal<cCompilerClasses, compilerBitPack>\<close>\<close>

text \<open>
  The three class-count cascades. The general template is instantiated from 2 up to
  \<open>k_cCompilerClassesMax\<close> (its \<open>static_assert\<close>) and the specialization for
  \<open>k_cCompilerClassesMax + 1\<close> ends the recursion.
\<close>

function BinSumsBoostingZeroDimensionsTarget :: "ebm_internal \<Rightarrow> int \<Rightarrow> int \<Rightarrow> accumulator" where
  "BinSumsBoostingZeroDimensionsTarget h cPossibleClasses cRuntimeClasses =
     (if k_cCompilerClassesMax h < cPossibleClasses
      then ZeroDimensions (k_dynamicClassification h)
      else if cPossibleClasses = cRuntimeClasses then ZeroDimensions cPossibleClasses
      else BinSumsBoostingZeroDimensionsTarget h (cPossibleClasses + 1) cRuntimeClasses)"
  by pat_completeness auto
termination
  by (relation "measure (\<lambda>(h, c, r). nat (k_cCompilerClassesMax h + 1 - c))") auto

function BinSumsBoostingNormalTarget :: "ebm_internal \<Rightarrow> int \<Rightarrow> int \<Rightarrow> accumulator" where
  "BinSumsBoostingNormalTarget h cPossibleClasses cRuntimeClasses =
     (if k_cCompilerClassesMax h < cPossibleClasses
      then Internal (k_dynamicClassification h) (k_cItemsPerBitPackDynamic h)
      else if cPossibleClasses = cRuntimeClasses
      then Internal cPossibleClasses (k_cItemsPerBitPackDynamic h)
      else BinSumsBoostingNormalTarget h (cPossibleClasses + 1) cRuntimeClasses)"
  by pat_completeness auto
termination
  by (relation "measure (\<lambda>(h, c, r). nat (k_cCompilerClassesMax h + 1 - c))") auto

text \<open>The pack-width cascade, lines 418-477, along the chain of its template arguments.\<close>

fun BinSumsBoostingSIMDPacking :: "ebm_internal \<Rightarrow> int \<Rightarrow> int list \<Rightarrow> int \<Rightarrow> accumulator" where
  "BinSumsBoostingSIMDPacking h cCompilerClasses [] runtimeBitPack =
     Internal cCompilerClasses (k_cItemsPerBitPackDynamic h)"
| "BinSumsBoostingSIMDPacking h cCompilerClasses (compilerBitPack # next) runtimeBitPack =
     (if compilerBitPack = runtimeBitPack then Internal cCompilerClasses compilerBitPack
      else BinSumsBoostingSIMDPacking h cCompilerClasses next runtimeBitPack)"

function BinSumsBoostingSIMDTarget :: "ebm_internal \<Rightarrow> int \<Rightarrow> int \<Rightarrow> int \<Rightarrow> accumulator" where
  "BinSumsBoostingSIMDTarget h cPossibleClasses cRuntimeClasses runtimeBitPack =
     (if k_cCompilerClassesMax h < cPossibleClasses
      then BinSumsBoostingSIMDPacking h (k_dynamicClassification h) (k_packChain h) runtimeBitPack
      else if cPossibleClasses = cRuntimeClasses
      then BinSumsBoostingSIMDPacking h cPossibleClasses (k_packChain h) runtimeBitPack
      else BinSumsBoostingSIMDTarget h (cPossibleClasses + 1) cRuntimeClasses runtimeBitPack)"
  by pat_completeness auto
termination
  by (relation "measure (\<lambda>(h, c, r, p). nat (k_cCompilerClassesMax h + 1 - c))") auto

declare BinSumsBoostingZeroDimensionsTarget.simps [simp del]
declare BinSumsBoostingNormalTarget.simps [simp del]
declare BinSumsBoostingSIMDTarget.simps [simp del]

text \<open>The accumulator that \<open>BinSumsBoosting\<close> (lines 541-619) ends in.\<close>

definition BinSumsBoosting_select :: "ebm_internal \<Rightarrow> int \<Rightarrow> nat \<Rightarrow> int \<Rightarrow> accumulator" where
  "BinSumsBoosting_select h cRuntimeClasses iTerm runtimeBitPack =
     (if k_illegalTermIndex h = iTerm
      then (if IsClassification h cRuntimeClasses
            then BinSumsBoostingZeroDimensionsTarget h 2 cRuntimeClasses
            else ZeroDimensions (k_regression h))
      else if k_bUseSIMD h
      then (if IsClassification h cRuntimeClasses
            then BinSumsBoostingSIMDTarget h 2 cRuntimeClasses runtimeBitPack
            else BinSumsBoostingSIMDPacking h (k_regression h) (k_packChain h) runtimeBitPack)
      else (if IsClassification h cRuntimeClasses
            then BinSumsBoostingNormalTarget h 2 cRuntimeClasses
            else Internal (k_regression h) (k_cItemsPerBitPackDynamic h)))"

text \<open>
  The first lines of each \<open>Func\<close> (36-61 and 202-244): what the body of an instance
  computes from its template arguments and reads from the core, the term and the bag.
  The pack width is a \<open>ptrdiff_t\<close> that line 218 stores in a \<open>size_t\<close>.
\<close>

definition kernel_input ::
  "ebm_internal \<Rightarrow> int \<Rightarrow> 'f BoosterCore \<Rightarrow> 'f InnerBag \<Rightarrow> 64 word list \<Rightarrow> nat \<Rightarrow> 'f KernelInput" where
  "kernel_input h cCompilerClasses core bag aInputData cItemsPerBitPack =
     \<lparr>in_bClassification = IsClassification h cCompilerClasses,
      in_cScores = GetCountScores h (GET_COUNT_CLASSES h cCompilerClasses (GetCountClasses core)),
      in_cSamples = GetCountSamples core,
      in_aCountOccurrences = GetCountOccurrences bag,
      in_aWeights = GetWeights bag,
      in_weightTotal = GetWeightTotal bag,
      in_aGradientsAndHessians = GetGradientsAndHessiansPointer core,
      in_aInputData = aInputData,
      in_cItemsPerBitPack = cItemsPerBitPack,
      in_cBitsPerItemMax = GetCountBits h cItemsPerBitPack\<rparr>"

definition run_accumulator ::
  "ebm_internal \<Rightarrow> accumulator \<Rightarrow> ('f::{plus,times,zero}) BoosterCore \<Rightarrow> 'f Bin list \<Rightarrow> nat
     \<Rightarrow> 'f InnerBag \<Rightarrow> fault + 'f KernelState" where
  "run_accumulator h acc core bins iTerm bag =
     (case acc of
        ZeroDimensions cCompilerClasses \<Rightarrow>
          BinSumsBoostingZeroDimensions_Func (kernel_input h cCompilerClasses core bag [] 0) bins
      | Internal cCompilerClasses compilerBitPack \<Rightarrow>
          if length (GetTerms_GetBitPack core) \<le> iTerm
             \<or> length (GetInputDataPointer core) \<le> iTerm then Inl TermAccess
          else BinSumsBoostingInternal_Func
                 (kernel_input h cCompilerClasses core bag (GetInputDataPointer core ! iTerm)
                    (nat (GET_ITEMS_PER_BIT_PACK h compilerBitPack
                            (GetTerms_GetBitPack core ! iTerm) mod 2 ^ 64)))
                 bins)"

definition BinSumsBoosting ::
  "ebm_internal \<Rightarrow> ('f::{plus,times,zero}) BoosterCore \<Rightarrow> 'f Bin list \<Rightarrow> nat \<Rightarrow> 'f InnerBag
     \<Rightarrow> fault + 'f KernelState" where
  "BinSumsBoosting h core bins iTerm bag =
     (if k_illegalTermIndex h = iTerm
      then run_accumulator h (BinSumsBoosting_select h (GetCountClasses core) iTerm 0)
             core bins iTerm bag
      else if length (GetTerms_GetBitPack core) \<le> iTerm then Inl TermAccess
      else run_accumulator h
             (BinSumsBoosting_select h (GetCountClasses core) iTerm (GetTerms_GetBitPack core ! iTerm))
             core bins iTerm bag)"

subsection \<open>The arithmetic of FloatFast\<close>

text \<open>
  Modelled from the spec: \<open>FloatFast\<close> is a typedef of \<open>ebm_internal.hpp\<close>, which is not
  under src; the spec (section 3) has the weights, gradients and sums as floats. It is
  taken to be an IEEE 754 binary64 with the default rounding, to nearest with ties to
  even. A value is \<open>m * 2^e\<close>, kept with \<open>m\<close> odd, or as \<open>Dyadic 0 0\<close>; the exact sum or product of
  two values is rounded to 53 significant bits. The range of the exponent is not
  bounded: infinities, NaN, subnormal numbers and the sign of zero are left out, so the
  operations are those of the C++ on values whose results stay in the normal range.
\<close>

datatype FloatFast = Dyadic (mantissa: int) (exponent: int)

text \<open>
  The number of binary digits of a natural number, and the representation of \<open>m * 2^e\<close>
  with an odd \<open>m\<close>.
\<close>

function bit_length :: "nat \<Rightarrow> nat" where
  "bit_length n = (if n = 0 then 0 else Suc (bit_length (n div 2)))"
  by pat_completeness auto
termination
  by (relation "measure id") auto

declare bit_length.simps [simp del]

function normalise :: "int \<Rightarrow> int \<Rightarrow> FloatFast" where
  "normalise m e =
     (if m = 0 then Dyadic 0 0
      else if even m then normalise (m div 2) (e + 1)
      else Dyadic m e)"
  by pat_completeness auto
termination
  by (relation "measure (\<lambda>(m, e). nat \<bar>m\<bar>)") auto

declare normalise.simps [simp del]

text \<open>
  Rounding \<open>m * 2^e\<close>: with more than 53 bits in \<open>m\<close>, the \<open>k\<close> bits beyond them are cut
  off, and the rest is incremented when what was cut is more than half a unit of the
  last place kept, or exactly half and the rest is odd.
\<close>

definition round_nearest_even :: "int \<Rightarrow> int \<Rightarrow> FloatFast" where
  "round_nearest_even m e =
     (let n = bit_length (nat \<bar>m\<bar>)
      in if n \<le> 53 then normalise m e
         else let k = n - 53;
                  q = \<bar>m\<bar> div 2 ^ k;
                  r = \<bar>m\<bar> mod 2 ^ k;
                  q' = (if 2 ^ (k - 1) < r \<or> (r = 2 ^ (k - 1) \<and> odd q) then q + 1 else q)
              in normalise (sgn m * q') (e + int k))"

instantiation FloatFast :: "{zero, plus, times}"
begin

definition zero_FloatFast :: FloatFast where
  "0 = Dyadic 0 0"

definition plus_FloatFast :: "FloatFast \<Rightarrow> FloatFast \<Rightarrow> FloatFast" where
  "x + y =
     (let e = min (exponent x) (exponent y)
      in round_nearest_even
           (mantissa x * 2 ^ nat (exponent x - e) + mantissa y * 2 ^ nat (exponent y - e)) e)"

definition times_FloatFast :: "FloatFast \<Rightarrow> FloatFast \<Rightarrow> FloatFast" where
  "x * y = round_nearest_even (mantissa x * mantissa y) (exponent x + exponent y)"

instance ..

end

text \<open>The real number a value stands for.\<close>

definition valof :: "FloatFast \<Rightarrow> real" where
  "valof x = of_int (mantissa x) * 2 powr of_int (exponent x)"

section \<open>Reference semantics\<close>

text \<open>
  The effect of one pass in closed form, against which the loops are proved: what one
  sample adds to the gradient pairs of its bin and to the bin, and the state after the
  first \<open>n\<close> samples when sample \<open>i\<close> goes to bin \<open>idx i\<close>.
\<close>

definition add_at ::
  "bool \<Rightarrow> 'f list \<Rightarrow> 'f \<Rightarrow> nat \<Rightarrow> ('f::{plus,times}) GradientPair \<Rightarrow> 'f GradientPair" where
  "add_at bC aGH weight p gp =
     (if bC
      then gp\<lparr>m_sumGradients := m_sumGradients gp + (aGH ! p) * weight,
              m_sumHessians := m_sumHessians gp + (aGH ! (p + 1)) * weight\<rparr>
      else gp\<lparr>m_sumGradients := m_sumGradients gp + (aGH ! p) * weight\<rparr>)"

definition add_scores ::
  "bool \<Rightarrow> 'f list \<Rightarrow> 'f \<Rightarrow> nat \<Rightarrow> nat \<Rightarrow> nat \<Rightarrow> ('f::{plus,times}) GradientPair list
     \<Rightarrow> 'f GradientPair list" where
  "add_scores bC aGH weight p0 lo hi gps =
     map (\<lambda>s. if lo \<le> s \<and> s < hi
              then add_at bC aGH weight (p0 + stride bC * s) (gps ! s) else gps ! s)
       [0..<length gps]"

abbreviation stride_scores :: "'f KernelInput \<Rightarrow> nat" where
  "stride_scores inp \<equiv> stride (in_bClassification inp) * in_cScores inp"

definition bin_add :: "('f::{plus,times}) KernelInput \<Rightarrow> nat \<Rightarrow> 'f Bin \<Rightarrow> 'f Bin" where
  "bin_add inp i b =
     b\<lparr>m_cSamples := m_cSamples b + in_aCountOccurrences inp ! i,
       m_weight := m_weight b + in_aWeights inp ! i,
       m_aGradientPairs :=
         add_scores (in_bClassification inp) (in_aGradientsAndHessians inp) (in_aWeights inp ! i)
           (stride_scores inp * i) 0 (in_cScores inp) (m_aGradientPairs b)\<rparr>"

primrec state_after ::
  "('f::{plus,times,zero}) KernelInput \<Rightarrow> (nat \<Rightarrow> nat) \<Rightarrow> 'f Bin list \<Rightarrow> nat \<Rightarrow> 'f KernelState" where
  "state_after inp idx bins 0 = init_state bins"
| "state_after inp idx bins (Suc n) =
     (let st = state_after inp idx bins n
      in st\<lparr>aBins := (aBins st)[idx n := bin_add inp n (aBins st ! idx n)],
            pCountOccurrences := Suc n,
            pWeight := Suc n,
            pGradientAndHessian := stride_scores inp * Suc n,
            weightTotalDebug := weightTotalDebug st + in_aWeights inp ! n\<rparr>)"

subsection \<open>The contract of a call\<close>

text \<open>
  The preconditions that the C++ asserts in debug builds or leaves to the caller: a
  positive sample count, at least one score, arrays that hold an entry for every
  sample, bins that hold a gradient pair for every score, and bin indices inside the
  buffer. The indexed accumulator also needs a pack width between 1 and the number of
  bits of a storage word (lines 219-220), a field width of at least 1 (line 222) and
  below the number of bits of a storage word, so that the shift of line 330 is defined
  (the assertion of line 223 also admits that number itself, for which the shift is
  not defined), and a packed word for every \<open>cItemsPerBitPack\<close> samples.
\<close>

definition samples_ok ::
  "('f::{plus,times,zero}) KernelInput \<Rightarrow> (nat \<Rightarrow> nat) \<Rightarrow> 'f Bin list \<Rightarrow> bool" where
  "samples_ok inp idx bins \<longleftrightarrow>
     1 \<le> in_cScores inp \<and>
     in_cSamples inp \<le> length (in_aCountOccurrences inp) \<and>
     in_cSamples inp \<le> length (in_aWeights inp) \<and>
     stride_scores inp * in_cSamples inp \<le> length (in_aGradientsAndHessians inp) \<and>
     list_all (\<lambda>b. length (m_aGradientPairs b) = in_cScores inp) bins \<and>
     list_all (\<lambda>i. idx i < length bins) [0..<in_cSamples inp]"

text \<open>
  The mask of line 224 and the bin index the inner loop computes for sample \<open>i\<close>: field
  \<open>i mod cItemsPerBitPack\<close> of word \<open>i div cItemsPerBitPack\<close> (lines 269-273 and 330).
\<close>

definition maskBits_of :: "'f KernelInput \<Rightarrow> 64 word" where
  "maskBits_of inp = drop_bit (k_cBitsForStorageType - in_cBitsPerItemMax inp) (NOT 0)"

definition decode_index :: "'f KernelInput \<Rightarrow> nat \<Rightarrow> nat" where
  "decode_index inp i =
     unat (maskBits_of inp AND
           drop_bit (in_cBitsPerItemMax inp * (i mod in_cItemsPerBitPack inp))
             (in_aInputData inp ! (i div in_cItemsPerBitPack inp)))"

definition count_words :: "'f KernelInput \<Rightarrow> nat" where
  "count_words inp = (in_cSamples inp + in_cItemsPerBitPack inp - 1) div in_cItemsPerBitPack inp"

definition indexed_call_ok :: "('f::{plus,times,zero}) KernelInput \<Rightarrow> 'f Bin list \<Rightarrow> bool" where
  "indexed_call_ok inp bins \<longleftrightarrow>
     samples_ok inp (decode_index inp) bins \<and>
     0 < in_cSamples inp \<and>
     1 \<le> in_cItemsPerBitPack inp \<and> in_cItemsPerBitPack inp \<le> k_cBitsForStorageType \<and>
     1 \<le> in_cBitsPerItemMax inp \<and> in_cBitsPerItemMax inp < k_cBitsForStorageType \<and>
     count_words inp \<le> length (in_aInputData inp)"

definition zero_call_ok :: "('f::{plus,times,zero}) KernelInput \<Rightarrow> 'f Bin list \<Rightarrow> bool" where
  "zero_call_ok inp bins \<longleftrightarrow> samples_ok inp (\<lambda>i. 0) bins \<and> 0 < in_cSamples inp"

subsection \<open>Totals over the bin buffer\<close>

definition sum_countSamples :: "'f Bin list \<Rightarrow> 64 word" where
  "sum_countSamples bins = sum_list (map m_cSamples bins)"

text \<open>
  The interleaved array holds, for sample \<open>i\<close> and score \<open>s\<close>, the gradient at
  \<open>stride * (cScores * i + s)\<close> and, for classification, the hessian right after it.
\<close>

definition gradient_at :: "'f KernelInput \<Rightarrow> nat \<Rightarrow> nat \<Rightarrow> 'f" where
  "gradient_at inp i s =
     in_aGradientsAndHessians inp ! (stride (in_bClassification inp) * (in_cScores inp * i + s))"

definition hessian_at :: "'f KernelInput \<Rightarrow> nat \<Rightarrow> nat \<Rightarrow> 'f" where
  "hessian_at inp i s =
     in_aGradientsAndHessians inp ! (stride (in_bClassification inp) * (in_cScores inp * i + s) + 1)"

text \<open>What sample \<open>i\<close> contributes to the sums of score \<open>s\<close>.\<close>

definition weighted_gradient :: "('f::times) KernelInput \<Rightarrow> nat \<Rightarrow> nat \<Rightarrow> 'f" where
  "weighted_gradient inp s i = gradient_at inp i s * in_aWeights inp ! i"

definition weighted_hessian :: "('f::times) KernelInput \<Rightarrow> nat \<Rightarrow> nat \<Rightarrow> 'f" where
  "weighted_hessian inp s i = hessian_at inp i s * in_aWeights inp ! i"

definition sumGradients_of :: "nat \<Rightarrow> 'f Bin \<Rightarrow> 'f" where
  "sumGradients_of s b = m_sumGradients (m_aGradientPairs b ! s)"

definition sumHessians_of :: "nat \<Rightarrow> 'f Bin \<Rightarrow> 'f" where
  "sumHessians_of s b = m_sumHessians (m_aGradientPairs b ! s)"

text \<open>
  A sum of numbers is taken the way a loop takes it: from 0, one addition for each
  element, in the order of the list. With rounding the result depends on that order and
  on how the elements are grouped. \<open>exact_addition\<close> says that it does not: the addition
  is associative and commutative and 0 is neutral, as in exact arithmetic.
\<close>

definition sum_in_order :: "('f::{plus,zero}) list \<Rightarrow> 'f" where
  "sum_in_order xs = foldl (+) 0 xs"

definition exact_addition :: "('f \<Rightarrow> 'f \<Rightarrow> 'f) \<Rightarrow> 'f \<Rightarrow> bool" where
  "exact_addition add z \<longleftrightarrow>
     (\<forall>a b c. add (add a b) c = add a (add b c)) \<and>
     (\<forall>a b. add a b = add b a) \<and>
     (\<forall>a. add z a = a)"

text \<open>The samples that go to bin \<open>b\<close>, in the order in which the pass meets them.\<close>

definition bin_samples :: "'f KernelInput \<Rightarrow> (nat \<Rightarrow> nat) \<Rightarrow> nat \<Rightarrow> nat list" where
  "bin_samples inp idx b = filter (\<lambda>i. idx i = b) [0..<in_cSamples inp]"

definition zeroed :: "('f::zero) Bin list \<Rightarrow> bool" where
  "zeroed bins \<longleftrightarrow>
     list_all (\<lambda>b. m_cSamples b = 0 \<and> m_weight b = 0 \<and>
                 list_all (\<lambda>gp. m_sumGradients gp = 0 \<and> m_sumHessians gp = 0) (m_aGradientPairs b)) bins"

subsection \<open>Example inputs\<close>

text \<open>
  Five regression samples, four to a word in fields of 16 bits, with bin indices
  0, 1, 3, 1, 2; and two samples of a three-class classification that share bin 1.
\<close>

definition zero_bin :: "nat \<Rightarrow> ('f::zero) Bin" where
  "zero_bin cScores =
     \<lparr>m_cSamples = 0, m_weight = 0,
      m_aGradientPairs = replicate cScores \<lparr>m_sumGradients = 0, m_sumHessians = 0\<rparr>\<rparr>"

definition ex_regression :: "int KernelInput" where
  "ex_regression =
     \<lparr>in_bClassification = False, in_cScores = 1, in_cSamples = 5,
      in_aCountOccurrences = [1, 2, 1, 1, 1],
      in_aWeights = [1, 2, 1, 3, 1],
      in_weightTotal = 8,
      in_aGradientsAndHessians = [1, -2, 3, -1, 5],
      in_aInputData = [0x0001000300010000, 0x0000000000000002],
      in_cItemsPerBitPack = 4, in_cBitsPerItemMax = 16\<rparr>"

definition ex_classification :: "int KernelInput" where
  "ex_classification =
     \<lparr>in_bClassification = True, in_cScores = 3, in_cSamples = 2,
      in_aCountOccurrences = [1, 1],
      in_aWeights = [2, 3],
      in_weightTotal = 5,
      in_aGradientsAndHessians = [1, 10, 2, 20, 3, 30, 4, 40, 5, 50, 6, 60],
      in_aInputData = [3],
      in_cItemsPerBitPack = 64, in_cBitsPerItemMax = 1\<rparr>"

subsection \<open>The properties of the final state\<close>

text \<open>
  Bin \<open>b\<close> of the buffer \<open>bins'\<close> holds, for score \<open>s\<close>, what it held in \<open>bins\<close> with
  the contributions of its samples added to it one at a time, in sample order; and the
  sums over the whole buffer are the sums over all samples.
\<close>

definition gradients_in_order ::
  "('f::{plus,times}) KernelInput \<Rightarrow> (nat \<Rightarrow> nat) \<Rightarrow> 'f Bin list \<Rightarrow> nat \<Rightarrow> 'f Bin list \<Rightarrow> bool" where
  "gradients_in_order inp idx bins s bins' \<longleftrightarrow>
     length bins' = length bins \<and>
     list_all
       (\<lambda>b. sumGradients_of s (bins' ! b)
               = foldl (+) (sumGradients_of s (bins ! b))
                   (map (weighted_gradient inp s) (bin_samples inp idx b)) \<and>
            (in_bClassification inp \<longrightarrow>
               sumHessians_of s (bins' ! b)
                 = foldl (+) (sumHessians_of s (bins ! b))
                     (map (weighted_hessian inp s) (bin_samples inp idx b))))
       [0..<length bins]"

definition gradient_totals ::
  "('f::{plus,times,zero}) KernelInput \<Rightarrow> nat \<Rightarrow> 'f Bin list \<Rightarrow> bool" where
  "gradient_totals inp s bins' \<longleftrightarrow>
     sum_in_order (map (sumGradients_of s) bins')
       = sum_in_order (map (weighted_gradient inp s) [0..<in_cSamples inp]) \<and>
     (in_bClassification inp \<longrightarrow>
        sum_in_order (map (sumHessians_of s) bins')
          = sum_in_order (map (weighted_hessian inp s) [0..<in_cSamples inp]))"


definition total_occurrences :: "'f KernelInput \<Rightarrow> nat" where
  "total_occurrences inp = sum_list (map unat (take (in_cSamples inp) (in_aCountOccurrences inp)))"

definition sum_countSamples_nat :: "'f Bin list \<Rightarrow> nat" where
  "sum_countSamples_nat bins = sum_list (map (\<lambda>b. unat (m_cSamples b)) bins)"

definition counts_agree :: "'f KernelInput \<Rightarrow> 'f KernelState \<Rightarrow> bool" where
  "counts_agree inp st \<longleftrightarrow>
     sum_countSamples (aBins st) = sum_list (take (in_cSamples inp) (in_aCountOccurrences inp)) \<and>
     (total_occurrences inp < 2 ^ 64 \<longrightarrow> sum_countSamples_nat (aBins st) = total_occurrences inp)"

text \<open>
  Running the body of a loop a given number of times, stopping at the first fault; and
  the body of the inner loop of the indexed accumulator with the bin index that belongs
  to the sample the occurrence pointer stands at.
\<close>

fun repeat_step :: "('s \<Rightarrow> fault + 's) \<Rightarrow> nat \<Rightarrow> 's \<Rightarrow> fault + 's" where
  "repeat_step f 0 s = Inr s"
| "repeat_step f (Suc n) s = (case f s of Inl e \<Rightarrow> Inl e | Inr s' \<Rightarrow> repeat_step f n s')"

definition decode_sample ::
  "('f::{plus,times}) KernelInput \<Rightarrow> 'f KernelState \<Rightarrow> fault + 'f KernelState" where
  "decode_sample inp st = Internal_sample inp (decode_index inp (pCountOccurrences st)) st"

definition full_pass :: "'f KernelInput \<Rightarrow> 'f KernelState \<Rightarrow> bool" where
  "full_pass inp st \<longleftrightarrow>
     pCountOccurrences st = in_cSamples inp \<and>
     pWeight st = in_cSamples inp \<and>
     pGradientAndHessian st = stride (in_bClassification inp) * in_cScores inp * in_cSamples inp"

definition hessians_of :: "'f Bin list \<Rightarrow> 'f list list" where
  "hessians_of bins = map (\<lambda>b. map m_sumHessians (m_aGradientPairs b)) bins"

definition ex_single_cell :: "int KernelInput" where
  "ex_single_cell =
     \<lparr>in_bClassification = True, in_cScores = 3, in_cSamples = 2,
      in_aCountOccurrences = [1, 1],
      in_aWeights = [2, 3],
      in_weightTotal = 5,
      in_aGradientsAndHessians = [1, 10, 2, 20, 3, 30, 4, 40, 5, 50, 6, 60],
      in_aInputData = [0],
      in_cItemsPerBitPack = 64, in_cBitsPerItemMax = 1\<rparr>"


text \<open>
  Inputs in the arithmetic of \<open>FloatFast\<close>. In the first, the gradients of four samples
  with unit weights are \<open>2^53\<close>, 1, \<open>- 2^53\<close> and 1, and the samples go to the bins
  0, 1, 0, 1. In the second, five samples with the weights 0.5, 2, 1, 3 and 1.5 go to
  the bins 0, 1, 3, 1, 2, and the bag says that its weights total 12345.
\<close>

definition ex_rounding :: "FloatFast KernelInput" where
  "ex_rounding =
     \<lparr>in_bClassification = False, in_cScores = 1, in_cSamples = 4,
      in_aCountOccurrences = [1, 1, 1, 1],
      in_aWeights = [Dyadic 1 0, Dyadic 1 0, Dyadic 1 0, Dyadic 1 0],
      in_weightTotal = Dyadic 1 2,
      in_aGradientsAndHessians = [Dyadic 1 53, Dyadic 1 0, Dyadic (- 1) 53, Dyadic 1 0],
      in_aInputData = [0x0001000000010000],
      in_cItemsPerBitPack = 4, in_cBitsPerItemMax = 16\<rparr>"


text \<open>
  The contract of an indexed call with the widths as the assertions of lines 219-223
  state them: a field width of all 64 bits of a storage word is admitted. The input
  after it has one field of that width to a word.
\<close>

definition indexed_asserts_hold :: "('f::{plus,times,zero}) KernelInput \<Rightarrow> 'f Bin list \<Rightarrow> bool" where
  "indexed_asserts_hold inp bins \<longleftrightarrow>
     samples_ok inp (decode_index inp) bins \<and>
     0 < in_cSamples inp \<and>
     1 \<le> in_cItemsPerBitPack inp \<and> in_cItemsPerBitPack inp \<le> k_cBitsForStorageType \<and>
     1 \<le> in_cBitsPerItemMax inp \<and> in_cBitsPerItemMax inp \<le> k_cBitsForStorageType \<and>
     count_words inp \<le> length (in_aInputData inp)"

definition ex_full_width :: "int KernelInput" where
  "ex_full_width =
     \<lparr>in_bClassification = False, in_cScores = 1, in_cSamples = 2,
      in_aCountOccurrences = [1, 1],
      in_aWeights = [1, 1],
      in_weightTotal = 2,
      in_aGradientsAndHessians = [3, 4],
      in_aInputData = [0, 0],
      in_cItemsPerBitPack = 1, in_cBitsPerItemMax = 64\<rparr>"

text \<open>
  The number of fields the last packed word holds, and input arrays that are exactly as
  long as the sample count requires.
\<close>

definition cItemsLast :: "'f KernelInput \<Rightarrow> nat" where
  "cItemsLast inp =
     (if in_cSamples inp mod in_cItemsPerBitPack inp = 0 then in_cItemsPerBitPack inp
      else in_cSamples inp mod in_cItemsPerBitPack inp)"

definition exact_arrays :: "'f KernelInput \<Rightarrow> bool" where
  "exact_arrays inp \<longleftrightarrow>
     length (in_aCountOccurrences inp) = in_cSamples inp \<and>
     length (in_aWeights inp) = in_cSamples inp \<and>
     length (in_aGradientsAndHessians inp)
       = stride (in_bClassification inp) * in_cScores inp * in_cSamples inp \<and>
     length (in_aInputData inp) = count_words inp"

subsection \<open>Packed words\<close>

text \<open>
  What the inner loop extracts from one full word: the mask of line 224, the field of
  line 273 and the shift of line 330.
\<close>

definition decode_word :: "nat \<Rightarrow> nat \<Rightarrow> 64 word \<Rightarrow> nat list" where
  "decode_word cItemsPerBitPack cBitsPerItemMax w =
     map (\<lambda>k. unat (drop_bit (k_cBitsForStorageType - cBitsPerItemMax) (NOT 0 :: 64 word) AND
                     drop_bit (cBitsPerItemMax * k) w))
       [0..<cItemsPerBitPack]"

text \<open>
  Modelled from the spec: the encoder is not under src. Fields are stored
  least-significant-first (spec 4.2), the first field in the low bits of the word.
\<close>

fun pack_nat :: "nat \<Rightarrow> nat list \<Rightarrow> nat" where
  "pack_nat bits [] = 0"
| "pack_nat bits (f # fs) = f + 2 ^ bits * pack_nat bits fs"

definition pack_word :: "nat \<Rightarrow> nat list \<Rightarrow> 64 word" where
  "pack_word bits vals = word_of_nat (pack_nat bits vals)"

text \<open>
  Modelled from the spec: \<open>GetCountBits\<close> is declared in \<open>ebm_internal.hpp\<close>, which is
  not under src. Spec 4.2: the field width is the minimal number of bits to represent
  \<open>itemsPerWord - 1\<close>, which is the number of binary digits of that number.
\<close>

definition GetCountBits_spec :: "nat \<Rightarrow> nat" where
  "GetCountBits_spec cItemsPerBitPack = bit_length (cItemsPerBitPack - 1)"

subsection \<open>The decision tree of the dispatcher\<close>

text \<open>
  The template arguments the stated decision tree selects: the class count itself when
  it is one of the enumerated \<open>2..k_cCompilerClassesMax\<close>, the dynamic marker for any
  other classification, the regression marker otherwise; the pack width itself when it
  is in the chain, the dynamic marker otherwise. \<open>dynamic_instance\<close> is the accumulator
  with no compile-time class count or pack width.
\<close>

definition class_argument :: "ebm_internal \<Rightarrow> int \<Rightarrow> int" where
  "class_argument h cRuntimeClasses =
     (if IsClassification h cRuntimeClasses
      then (if 2 \<le> cRuntimeClasses \<and> cRuntimeClasses \<le> k_cCompilerClassesMax h
            then cRuntimeClasses else k_dynamicClassification h)
      else k_regression h)"

definition pack_argument :: "ebm_internal \<Rightarrow> int \<Rightarrow> int" where
  "pack_argument h runtimeBitPack =
     (if runtimeBitPack \<in> set (k_packChain h) then runtimeBitPack
      else k_cItemsPerBitPackDynamic h)"

definition dynamic_instance :: "ebm_internal \<Rightarrow> int \<Rightarrow> nat \<Rightarrow> accumulator" where
  "dynamic_instance h cRuntimeClasses iTerm =
     (let c = (if IsClassification h cRuntimeClasses then k_dynamicClassification h
               else k_regression h)
      in if k_illegalTermIndex h = iTerm then ZeroDimensions c
         else Internal c (k_cItemsPerBitPackDynamic h))"

text \<open>
  Values of the parameters for the examples. The chain of pack widths is the one the
  comment at lines 570-578 lists.
\<close>

definition ex_header :: ebm_internal where
  "ex_header =
     \<lparr>k_cCompilerClassesMax = 8, k_regression = - 1, k_dynamicClassification = 0,
      k_cItemsPerBitPackDynamic = 0,
      k_packChain = [64, 32, 21, 16, 12, 10, 9, 8, 7, 6, 5, 4, 3, 2, 1],
      k_bUseSIMD = True, k_illegalTermIndex = 2 ^ 64 - 1,
      IsClassification = (\<lambda>c. 0 \<le> c),
      GetCountScores = (\<lambda>c. if c \<le> 2 then 1 else nat c),
      GetCountBits = (\<lambda>n. 64 div n)\<rparr>"

definition ex_core :: "int BoosterCore" where
  "ex_core =
     \<lparr>GetCountClasses = 3, GetCountSamples = 2,
      GetGradientsAndHessiansPointer = [1, 10, 2, 20, 3, 30, 4, 40, 5, 50, 6, 60],
      GetInputDataPointer = [[3]],
      GetTerms_GetBitPack = [64]\<rparr>"

definition ex_bag :: "int InnerBag" where
  "ex_bag = \<lparr>GetCountOccurrences = [1, 1], GetWeights = [2, 3], GetWeightTotal = 5\<rparr>"

text \<open>
  Bins whose hessian sums are not zero before the call, to observe that a regression call
  leaves them as they are.
\<close>

definition ex_marked_bins :: "int Bin list" where
  "ex_marked_bins =
     replicate 4 \<lparr>m_cSamples = 0, m_weight = 0,
                  m_aGradientPairs = [\<lparr>m_sumGradients = 0, m_sumHessians = 7\<rparr>]\<rparr>"

subsection \<open>A worked example\<close>

text \<open>
  Five samples of a regression, four 16-bit fields to a word, the bin indices 0, 1, 3, 1, 2, unit
  weights and occurrences, and the gradients 0.1, -0.2, 0.3, -0.1, 0.05. The first word holds
  four indices, the second the last one.
\<close>

definition ex_scenario :: "real KernelInput" where
  "ex_scenario =
     \<lparr>in_bClassification = False, in_cScores = 1, in_cSamples = 5,
      in_aCountOccurrences = [1, 1, 1, 1, 1],
      in_aWeights = [1, 1, 1, 1, 1],
      in_weightTotal = 5,
      in_aGradientsAndHessians = [1 / 10, - (2 / 10), 3 / 10, - (1 / 10), 5 / 100],
      in_aInputData = [pack_word 16 [0, 1, 3, 1], pack_word 16 [2]],
      in_cItemsPerBitPack = 4, in_cBitsPerItemMax = 16\<rparr>"

section \<open>The loops compute the reference semantics\<close>

subsection \<open>The loop over scores\<close>

lemma length_add_scores [simp]: "length (add_scores bC aGH w p0 lo hi gps) = length gps"
  by (simp add: add_scores_def)

lemma nth_add_scores:
  "s < length gps \<Longrightarrow> add_scores bC aGH w p0 lo hi gps ! s =
     (if lo \<le> s \<and> s < hi then add_at bC aGH w (p0 + stride bC * s) (gps ! s) else gps ! s)"
  by (simp add: add_scores_def)

lemma add_scores_step:
  "lo < length gps \<Longrightarrow> lo < hi \<Longrightarrow>
   add_scores bC aGH w p0 (Suc lo) hi (gps[lo := add_at bC aGH w (p0 + stride bC * lo) (gps ! lo)])
     = add_scores bC aGH w p0 lo hi gps"
  by (rule nth_equalityI) (auto simp: nth_add_scores nth_list_update)

lemma add_scores_last:
  "lo < length gps \<Longrightarrow>
   gps[lo := add_at bC aGH w (p0 + stride bC * lo) (gps ! lo)]
     = add_scores bC aGH w p0 lo (Suc lo) gps"
  by (rule nth_equalityI) (auto simp: nth_add_scores nth_list_update)

lemma score_loop_step:
  "p < length aGH \<Longrightarrow> iScore < length gps \<Longrightarrow> (bC \<Longrightarrow> p + 1 < length aGH) \<Longrightarrow>
   score_loop bC cScores aGH w iScore p gps =
     (if Suc iScore < cScores
      then score_loop bC cScores aGH w (Suc iScore) (p + stride bC)
             (gps[iScore := add_at bC aGH w p (gps ! iScore)])
      else Inr (p + stride bC, gps[iScore := add_at bC aGH w p (gps ! iScore)]))"
  by (subst score_loop.simps) (auto simp: Let_def add_at_def)

lemma stride_pos: "0 < stride bC"
  by (simp add: stride_def)

lemma score_loop_correct:
  "iScore < cScores \<Longrightarrow> cScores \<le> length gps \<Longrightarrow>
   p0 + stride bC * cScores \<le> length aGH \<Longrightarrow>
   score_loop bC cScores aGH w iScore (p0 + stride bC * iScore) gps
     = Inr (p0 + stride bC * cScores, add_scores bC aGH w p0 iScore cScores gps)"
proof (induction "cScores - iScore" arbitrary: iScore gps)
  case 0
  then show ?case by simp
next
  case (Suc d)
  let ?p = "p0 + stride bC * iScore"
  let ?gps = "gps[iScore := add_at bC aGH w ?p (gps ! iScore)]"
  have "stride bC * Suc iScore \<le> stride bC * cScores"
    using Suc.prems(1) by (intro mult_le_mono2) simp
  then have bound: "?p + stride bC \<le> length aGH"
    using Suc.prems(3) by simp
  have r1: "?p < length aGH" using bound stride_pos [of bC] by linarith
  have r2: "bC \<Longrightarrow> ?p + 1 < length aGH" using bound by (simp add: stride_def)
  have r3: "iScore < length gps" using Suc.prems by simp
  note step = score_loop_step [OF r1 r3 r2]
  show ?case
  proof (cases "Suc iScore < cScores")
    case True
    have "score_loop bC cScores aGH w (Suc iScore) (p0 + stride bC * Suc iScore) ?gps
          = Inr (p0 + stride bC * cScores, add_scores bC aGH w p0 (Suc iScore) cScores ?gps)"
      using Suc.hyps(2) Suc.prems True by (intro Suc.hyps(1)) auto
    moreover have "p0 + stride bC * Suc iScore = ?p + stride bC" by simp
    ultimately show ?thesis
      using True r3 Suc.prems(1) by (simp only: step add_scores_step if_True)
  next
    case False
    with Suc.prems have eq: "cScores = Suc iScore" by simp
    show ?thesis
      using r3 by (simp add: step eq add_scores_last)
  qed
qed

subsection \<open>One sample\<close>

lemma state_after_pointers [simp]:
  "pCountOccurrences (state_after inp idx bins n) = n"
  "pWeight (state_after inp idx bins n) = n"
  "pGradientAndHessian (state_after inp idx bins n) = stride_scores inp * n"
  "pInputData (state_after inp idx bins n) = 0"
  "length (aBins (state_after inp idx bins n)) = length bins"
  by (induction n) (simp_all add: init_state_def Let_def)

lemma bin_add_pairs_length [simp]:
  "length (m_aGradientPairs (bin_add inp i b)) = length (m_aGradientPairs b)"
  by (simp add: bin_add_def)

lemma state_after_pairs:
  "list_all (\<lambda>b. length (m_aGradientPairs b) = c) bins \<Longrightarrow>
   list_all (\<lambda>b. length (m_aGradientPairs b) = c) (aBins (state_after inp idx bins n))"
proof (induction n)
  case 0
  then show ?case by (simp add: init_state_def)
next
  case (Suc n)
  then have IH: "list_all (\<lambda>b. length (m_aGradientPairs b) = c) (aBins (state_after inp idx bins n))"
    by simp
  show ?case
  proof (cases "idx n < length bins")
    case True
    with IH show ?thesis
      by (auto simp: Let_def list_all_length nth_list_update)
  next
    case False
    then have "(aBins (state_after inp idx bins n))[idx n := bin_add inp n (aBins (state_after inp idx bins n) ! idx n)]
        = aBins (state_after inp idx bins n)"
      by (intro list_update_beyond) simp
    with IH show ?thesis by (simp add: Let_def)
  qed
qed

lemma Internal_sample_correct:
  assumes "pCountOccurrences st < length (in_aCountOccurrences inp)"
    and "pWeight st = pCountOccurrences st"
    and "pWeight st < length (in_aWeights inp)"
    and "i < length (aBins st)"
    and "1 \<le> in_cScores inp"
    and "in_cScores inp \<le> length (m_aGradientPairs (aBins st ! i))"
    and "pGradientAndHessian st = stride_scores inp * pCountOccurrences st"
    and "stride_scores inp * Suc (pCountOccurrences st) \<le> length (in_aGradientsAndHessians inp)"
  shows "Internal_sample inp i st =
    Inr (st\<lparr>aBins := (aBins st)[i := bin_add inp (pCountOccurrences st) (aBins st ! i)],
            pCountOccurrences := Suc (pCountOccurrences st),
            pWeight := Suc (pCountOccurrences st),
            pGradientAndHessian := stride_scores inp * Suc (pCountOccurrences st),
            weightTotalDebug := weightTotalDebug st + in_aWeights inp ! pCountOccurrences st\<rparr>)"
proof -
  let ?bC = "in_bClassification inp"
  let ?p0 = "stride_scores inp * pCountOccurrences st"
  have "score_loop ?bC (in_cScores inp) (in_aGradientsAndHessians inp)
          (in_aWeights inp ! pWeight st) 0 (?p0 + stride ?bC * 0)
          (m_aGradientPairs (aBins st ! i))
        = Inr (?p0 + stride ?bC * in_cScores inp,
               add_scores ?bC (in_aGradientsAndHessians inp) (in_aWeights inp ! pWeight st) ?p0 0
                 (in_cScores inp) (m_aGradientPairs (aBins st ! i)))"
    using assms by (intro score_loop_correct) auto
  then show ?thesis
    using assms by (simp add: Internal_sample_def Let_def bin_add_def)
qed

lemma ZeroDim_sample_Internal:
  "aBins st \<noteq> [] \<Longrightarrow> ZeroDim_sample inp st = Internal_sample inp 0 st"
  by (cases "aBins st")
     (auto simp: ZeroDim_sample_def Internal_sample_def Let_def split: sum.splits prod.splits)

lemma samples_ok_idx: "samples_ok inp idx bins \<Longrightarrow> i < in_cSamples inp \<Longrightarrow> idx i < length bins"
  by (simp add: samples_ok_def list_all_iff)

lemma Internal_sample_state_after:
  assumes ok: "samples_ok inp idx bins" and k: "k < in_cSamples inp"
  shows "Internal_sample inp (idx k) ((state_after inp idx bins k)\<lparr>pInputData := x\<rparr>)
           = Inr ((state_after inp idx bins (Suc k))\<lparr>pInputData := x\<rparr>)"
proof -
  let ?st = "(state_after inp idx bins k)\<lparr>pInputData := x\<rparr>"
  have pairs: "list_all (\<lambda>b. length (m_aGradientPairs b) = in_cScores inp) (aBins (state_after inp idx bins k))"
    using ok by (intro state_after_pairs) (simp add: samples_ok_def)
  have i: "idx k < length bins" using ok k by (rule samples_ok_idx)
  have "stride_scores inp * Suc k \<le> stride_scores inp * in_cSamples inp"
    using k by (intro mult_le_mono2) simp
  then have gh: "stride_scores inp * Suc k \<le> length (in_aGradientsAndHessians inp)"
    using ok by (simp add: samples_ok_def)
  have "Internal_sample inp (idx k) ?st =
    Inr (?st\<lparr>aBins := (aBins ?st)[idx k := bin_add inp (pCountOccurrences ?st) (aBins ?st ! idx k)],
            pCountOccurrences := Suc (pCountOccurrences ?st),
            pWeight := Suc (pCountOccurrences ?st),
            pGradientAndHessian := stride_scores inp * Suc (pCountOccurrences ?st),
            weightTotalDebug := weightTotalDebug ?st + in_aWeights inp ! pCountOccurrences ?st\<rparr>)"
    using ok k i pairs gh
    by (intro Internal_sample_correct) (auto simp: samples_ok_def list_all_length)
  then show ?thesis by (simp add: Let_def)
qed

lemma state_after_pInputData: "(state_after inp idx bins n)\<lparr>pInputData := 0\<rparr> = state_after inp idx bins n"
proof -
  have "pInputData (state_after inp idx bins n) = 0" by simp
  then show ?thesis by (metis KernelState.surjective KernelState.update_convs(4))
qed

lemma state_after_cong:
  "(\<And>i. i < n \<Longrightarrow> idx i = idx' i) \<Longrightarrow>
   state_after inp idx bins n = state_after inp idx' bins n"
  by (induction n) simp_all

subsection \<open>The loops of the indexed accumulator\<close>

text \<open>
  The inner loop takes \<open>n\<close> fields from a word, starting at field \<open>k\<close>. The outer loop
  runs over the full words and the tail re-enters it once for the last word.
\<close>

lemma decrement_size_t: "1 \<le> n \<Longrightarrow> n < 2 ^ 64 \<Longrightarrow> (n + 2 ^ 64 - 1) mod 2 ^ 64 = n - (1::nat)"
proof -
  assume a: "1 \<le> n" "n < 2 ^ 64"
  then have "n + 2 ^ 64 - 1 = (n - 1) + 1 * 2 ^ 64" by simp
  then have "(n + 2 ^ 64 - 1) mod 2 ^ 64 = (n - 1) mod 2 ^ 64"
    by (simp only: mod_mult_self1)
  with a show ?thesis by simp
qed

lemma Internal_item_loop_step:
  assumes "Internal_sample inp (unat (m AND w)) st = Inr st'" and "1 \<le> n" and "n < 2 ^ 64"
    and "in_cBitsPerItemMax inp < k_cBitsForStorageType"
  shows "Internal_item_loop inp m w n st =
     (if n = 1 then Inr st'
      else Internal_item_loop inp m (drop_bit (in_cBitsPerItemMax inp) w) (n - 1) st')"
proof -
  have dec: "(n + 2 ^ 64 - 1) mod 2 ^ 64 = n - 1"
    using assms by (intro decrement_size_t)
  have shift: "shift_right w (in_cBitsPerItemMax inp) = Inr (drop_bit (in_cBitsPerItemMax inp) w)"
    using assms(4) by (simp add: shift_right_def)
  have "Internal_item_loop inp m w n st =
     (if 0 \<noteq> n - 1
      then Internal_item_loop inp m (drop_bit (in_cBitsPerItemMax inp) w) (n - 1) st'
      else Inr st')"
    by (subst Internal_item_loop.simps) (simp only: assms(1) dec shift sum.case Let_def)
  with assms(2) show ?thesis by auto
qed

lemma Internal_item_loop_correct:
  assumes ok: "samples_ok inp (decode_index inp) bins"
    and wide: "in_cBitsPerItemMax inp < k_cBitsForStorageType"
  shows "1 \<le> n \<Longrightarrow> k + n \<le> in_cItemsPerBitPack inp \<Longrightarrow> in_cItemsPerBitPack inp < 2 ^ 64 \<Longrightarrow>
     j * in_cItemsPerBitPack inp + k + n \<le> in_cSamples inp \<Longrightarrow>
     Internal_item_loop inp (maskBits_of inp)
        (drop_bit (in_cBitsPerItemMax inp * k) (in_aInputData inp ! j)) n
        ((state_after inp (decode_index inp) bins (j * in_cItemsPerBitPack inp + k))\<lparr>pInputData := x\<rparr>)
      = Inr ((state_after inp (decode_index inp) bins (j * in_cItemsPerBitPack inp + k + n))\<lparr>pInputData := x\<rparr>)"
proof (induction n arbitrary: k)
  case 0
  then show ?case by simp
next
  case (Suc n)
  let ?items = "in_cItemsPerBitPack inp"
  let ?i = "j * ?items + k"
  have k: "k < ?items" using Suc.prems by simp
  have i: "?i < in_cSamples inp" using Suc.prems by simp
  have "?i mod ?items = k" "?i div ?items = j" using k by simp_all
  then have idx: "unat (maskBits_of inp AND drop_bit (in_cBitsPerItemMax inp * k) (in_aInputData inp ! j))
      = decode_index inp ?i"
    by (simp add: decode_index_def)
  have sample: "Internal_sample inp (unat (maskBits_of inp AND drop_bit (in_cBitsPerItemMax inp * k) (in_aInputData inp ! j)))
         ((state_after inp (decode_index inp) bins ?i)\<lparr>pInputData := x\<rparr>)
      = Inr ((state_after inp (decode_index inp) bins (Suc ?i))\<lparr>pInputData := x\<rparr>)"
    unfolding idx by (rule Internal_sample_state_after [OF ok i])
  have n64: "Suc n < 2 ^ 64" and one: "1 \<le> Suc n" using Suc.prems by simp_all
  note step = Internal_item_loop_step [OF sample one n64 wide]
  show ?case
  proof (cases "n = 0")
    case True
    show ?thesis unfolding step using True by (simp del: state_after.simps)
  next
    case False
    have shift: "drop_bit (in_cBitsPerItemMax inp)
          (drop_bit (in_cBitsPerItemMax inp * k) (in_aInputData inp ! j))
        = drop_bit (in_cBitsPerItemMax inp * Suc k) (in_aInputData inp ! j)"
      by (simp add: drop_bit_drop_bit add.commute)
    have "Internal_item_loop inp (maskBits_of inp)
        (drop_bit (in_cBitsPerItemMax inp * Suc k) (in_aInputData inp ! j)) n
        ((state_after inp (decode_index inp) bins (j * ?items + Suc k))\<lparr>pInputData := x\<rparr>)
      = Inr ((state_after inp (decode_index inp) bins (j * ?items + Suc k + n))\<lparr>pInputData := x\<rparr>)"
      using False Suc.prems by (intro Suc.IH) auto
    then show ?thesis
      unfolding step shift using False by (simp del: state_after.simps)
  qed
qed

lemma stride_scores_pos: "1 \<le> in_cScores inp \<Longrightarrow> 0 < stride_scores inp"
  by (simp add: stride_def)

lemma Internal_word_loop_tail:
  assumes ok: "samples_ok inp (decode_index inp) bins"
    and wide: "in_cBitsPerItemMax inp < k_cBitsForStorageType"
    and r: "1 \<le> r" "r \<le> in_cItemsPerBitPack inp" "in_cItemsPerBitPack inp < 2 ^ 64"
    and n: "j * in_cItemsPerBitPack inp + r = in_cSamples inp"
    and j: "j < length (in_aInputData inp)"
    and te: "pTrueEnd = stride_scores inp * in_cSamples inp"
  shows "Internal_word_loop inp (maskBits_of inp) pTrueEnd pTrueEnd r
           ((state_after inp (decode_index inp) bins (j * in_cItemsPerBitPack inp))\<lparr>pInputData := j\<rparr>)
         = Inr ((state_after inp (decode_index inp) bins (in_cSamples inp))\<lparr>pInputData := Suc j\<rparr>)"
proof -
  have "Internal_item_loop inp (maskBits_of inp)
        (drop_bit (in_cBitsPerItemMax inp * 0) (in_aInputData inp ! j)) r
        ((state_after inp (decode_index inp) bins (j * in_cItemsPerBitPack inp + 0))\<lparr>pInputData := Suc j\<rparr>)
      = Inr ((state_after inp (decode_index inp) bins (j * in_cItemsPerBitPack inp + 0 + r))\<lparr>pInputData := Suc j\<rparr>)"
    using r n by (intro Internal_item_loop_correct [OF ok wide]) auto
  then have item: "Internal_item_loop inp (maskBits_of inp) (in_aInputData inp ! j) r
        ((state_after inp (decode_index inp) bins (j * in_cItemsPerBitPack inp))\<lparr>pInputData := Suc j\<rparr>)
      = Inr ((state_after inp (decode_index inp) bins (in_cSamples inp))\<lparr>pInputData := Suc j\<rparr>)"
    using n by simp
  show ?thesis
    using j by (subst Internal_word_loop.simps) (simp add: item te del: state_after.simps)
qed

lemma Internal_word_loop_full:
  assumes ok: "samples_ok inp (decode_index inp) bins"
    and wide: "in_cBitsPerItemMax inp < k_cBitsForStorageType"
    and r: "1 \<le> r" "r \<le> in_cItemsPerBitPack inp" "in_cItemsPerBitPack inp < 2 ^ 64"
    and te: "pTrueEnd = stride_scores inp * in_cSamples inp"
  shows "1 \<le> m \<Longrightarrow> (j + m) * in_cItemsPerBitPack inp + r = in_cSamples inp \<Longrightarrow>
     j + m < length (in_aInputData inp) \<Longrightarrow>
     pExit = stride_scores inp * ((j + m) * in_cItemsPerBitPack inp) \<Longrightarrow>
     Internal_word_loop inp (maskBits_of inp) pTrueEnd pExit (in_cItemsPerBitPack inp)
           ((state_after inp (decode_index inp) bins (j * in_cItemsPerBitPack inp))\<lparr>pInputData := j\<rparr>)
         = Inr ((state_after inp (decode_index inp) bins (in_cSamples inp))\<lparr>pInputData := Suc (j + m)\<rparr>)"
proof (induction m arbitrary: j)
  case 0
  then show ?case by simp
next
  case (Suc m)
  let ?items = "in_cItemsPerBitPack inp"
  let ?S = "stride_scores inp"
  define q where "q = Suc j * ?items"
  have S: "0 < ?S" using ok by (intro stride_scores_pos) (simp add: samples_ok_def)
  have items: "0 < ?items" using r by simp
  have total: "in_cSamples inp = q + m * ?items + r"
    using Suc.prems(2) by (simp add: q_def add_mult_distrib)
  have "Internal_item_loop inp (maskBits_of inp)
        (drop_bit (in_cBitsPerItemMax inp * 0) (in_aInputData inp ! j)) ?items
        ((state_after inp (decode_index inp) bins (j * ?items + 0))\<lparr>pInputData := Suc j\<rparr>)
      = Inr ((state_after inp (decode_index inp) bins (j * ?items + 0 + ?items))\<lparr>pInputData := Suc j\<rparr>)"
  proof (intro Internal_item_loop_correct [OF ok wide])
    show "j * ?items + 0 + ?items \<le> in_cSamples inp" using total by (simp add: q_def)
  qed (use r items in auto)
  moreover have "j * ?items + 0 + ?items = q" by (simp add: q_def)
  ultimately have item: "Internal_item_loop inp (maskBits_of inp) (in_aInputData inp ! j) ?items
        ((state_after inp (decode_index inp) bins (j * ?items))\<lparr>pInputData := Suc j\<rparr>)
      = Inr ((state_after inp (decode_index inp) bins q)\<lparr>pInputData := Suc j\<rparr>)"
    by simp
  have jlen: "j < length (in_aInputData inp)" using Suc.prems by simp
  have exit: "pExit = ?S * (q + m * ?items)"
    using Suc.prems(4) by (simp add: q_def add_mult_distrib)
  show ?case
  proof (cases "m = 0")
    case True
    have exit0: "pExit = ?S * q" using exit True by simp
    have split: "pTrueEnd = ?S * q + ?S * r"
      using total True by (simp add: te distrib_left)
    have ne: "pTrueEnd \<noteq> ?S * q"
      using split S r by simp
    have rem: "(pTrueEnd - ?S * q) div (in_cScores inp * stride (in_bClassification inp)) = r"
      using split S by (simp add: mult.commute)
    have nz: "in_cScores inp * stride (in_bClassification inp) \<noteq> 0" using S by (simp add: mult.commute)
    have "Internal_word_loop inp (maskBits_of inp) pTrueEnd pTrueEnd r
           ((state_after inp (decode_index inp) bins (Suc j * ?items))\<lparr>pInputData := Suc j\<rparr>)
         = Inr ((state_after inp (decode_index inp) bins (in_cSamples inp))\<lparr>pInputData := Suc (Suc j)\<rparr>)"
      using total True r Suc.prems(3) by (intro Internal_word_loop_tail [OF ok wide _ _ _ _ _ te]) (auto simp: q_def)
    then have tail: "Internal_word_loop inp (maskBits_of inp) pTrueEnd pTrueEnd r
           ((state_after inp (decode_index inp) bins q)\<lparr>pInputData := Suc j\<rparr>)
         = Inr ((state_after inp (decode_index inp) bins (in_cSamples inp))\<lparr>pInputData := Suc (Suc j)\<rparr>)"
      by (simp only: q_def)
    show ?thesis
      using jlen True nz
      by (subst Internal_word_loop.simps)
         (simp add: item exit0 ne rem tail del: state_after.simps)
  next
    case False
    have ne: "pExit \<noteq> ?S * q"
    proof -
      have "0 < ?S * (m * ?items)" using False items S by simp
      then show ?thesis using exit by (simp add: distrib_left)
    qed
    have "Internal_word_loop inp (maskBits_of inp) pTrueEnd pExit ?items
           ((state_after inp (decode_index inp) bins (Suc j * ?items))\<lparr>pInputData := Suc j\<rparr>)
         = Inr ((state_after inp (decode_index inp) bins (in_cSamples inp))\<lparr>pInputData := Suc (Suc j + m)\<rparr>)"
      using Suc.prems False by (intro Suc.IH) auto
    then have IH: "Internal_word_loop inp (maskBits_of inp) pTrueEnd pExit ?items
           ((state_after inp (decode_index inp) bins q)\<lparr>pInputData := Suc j\<rparr>)
         = Inr ((state_after inp (decode_index inp) bins (in_cSamples inp))\<lparr>pInputData := Suc (Suc j + m)\<rparr>)"
      by (simp only: q_def)
    show ?thesis
      using jlen ne
      by (subst Internal_word_loop.simps)
         (simp add: item IH del: state_after.simps)
  qed
qed

subsection \<open>Both accumulators\<close>

lemma ZeroDim_loop_correct:
  assumes ok: "samples_ok inp (\<lambda>i. 0) bins"
  shows "k < in_cSamples inp \<Longrightarrow>
     ZeroDim_loop inp (stride_scores inp * in_cSamples inp) (state_after inp (\<lambda>i. 0) bins k)
       = Inr (state_after inp (\<lambda>i. 0) bins (in_cSamples inp))"
proof (induction "in_cSamples inp - k" arbitrary: k)
  case 0
  then show ?case by simp
next
  case (Suc d)
  have S: "0 < stride_scores inp" using ok by (intro stride_scores_pos) (simp add: samples_ok_def)
  have ne: "aBins (state_after inp (\<lambda>i. 0) bins k) \<noteq> []"
  proof -
    have "0 < length bins" using samples_ok_idx [OF ok Suc.prems] by simp
    then have "0 < length (aBins (state_after inp (\<lambda>i. 0) bins k))" by simp
    then show ?thesis by blast
  qed
  have "Internal_sample inp 0 ((state_after inp (\<lambda>i. 0) bins k)\<lparr>pInputData := 0\<rparr>)
      = Inr ((state_after inp (\<lambda>i. 0) bins (Suc k))\<lparr>pInputData := 0\<rparr>)"
    by (rule Internal_sample_state_after [OF ok Suc.prems])
  then have sample: "ZeroDim_sample inp (state_after inp (\<lambda>i. 0) bins k)
      = Inr (state_after inp (\<lambda>i. 0) bins (Suc k))"
    by (simp only: state_after_pInputData ZeroDim_sample_Internal [OF ne])
  show ?case
  proof (cases "Suc k = in_cSamples inp")
    case True
    show ?thesis
      by (subst ZeroDim_loop.simps) (simp add: sample True [symmetric] del: state_after.simps)
  next
    case False
    then have lt: "Suc k < in_cSamples inp" using Suc.prems by simp
    have "ZeroDim_loop inp (stride_scores inp * in_cSamples inp) (state_after inp (\<lambda>i. 0) bins (Suc k))
       = Inr (state_after inp (\<lambda>i. 0) bins (in_cSamples inp))"
      using Suc.hyps(2) lt by (intro Suc.hyps(1)) auto
    moreover have "stride_scores inp * in_cSamples inp \<noteq> stride_scores inp * Suc k"
      using S False unfolding mult_cancel1 by auto
    ultimately show ?thesis
      by (subst ZeroDim_loop.simps) (simp add: sample del: state_after.simps)
  qed
qed

lemma ZeroDim_Func_correct:
  assumes "zero_call_ok inp bins"
  shows "BinSumsBoostingZeroDimensions_Func inp bins
           = Inr (state_after inp (\<lambda>i. 0) bins (in_cSamples inp))"
  using assms ZeroDim_loop_correct [of inp bins 0]
  by (simp add: BinSumsBoostingZeroDimensions_Func_def zero_call_ok_def)

lemma Internal_Func_correct:
  assumes ok: "indexed_call_ok inp bins"
  shows "BinSumsBoostingInternal_Func inp bins
           = Inr ((state_after inp (decode_index inp) bins (in_cSamples inp))
                    \<lparr>pInputData := count_words inp\<rparr>)"
proof -
  let ?items = "in_cItemsPerBitPack inp"
  let ?n = "in_cSamples inp"
  let ?S = "stride_scores inp"
  have sok: "samples_ok inp (decode_index inp) bins"
    and n: "0 < ?n" and items: "1 \<le> ?items" "?items \<le> 64"
    and bits: "1 \<le> in_cBitsPerItemMax inp" "in_cBitsPerItemMax inp \<le> k_cBitsForStorageType"
    and words: "count_words inp \<le> length (in_aInputData inp)"
    using ok by (simp_all add: indexed_call_ok_def k_cBitsForStorageType_def)
  have wide: "in_cBitsPerItemMax inp < k_cBitsForStorageType"
    using ok by (simp add: indexed_call_ok_def)
  have i64: "?items < 2 ^ 64" using items by simp
  have init: "init_state bins = (state_after inp (decode_index inp) bins (0 * ?items))\<lparr>pInputData := 0\<rparr>"
    by (simp add: init_state_def)
  show ?thesis
  proof (cases "?n \<le> ?items")
    case True
    have cw: "count_words inp = Suc 0"
    proof -
      have "?n + ?items - 1 = (?n - 1) + 1 * ?items" using n by simp
      then have "(?n + ?items - 1) div ?items = (?n - 1) div ?items + 1"
        using items by (simp only: div_mult_self1)
      moreover have "(?n - 1) div ?items = 0" using True n by simp
      ultimately show ?thesis by (simp add: count_words_def)
    qed
    have "Internal_word_loop inp (maskBits_of inp) (?S * ?n) (?S * ?n) ?n
           ((state_after inp (decode_index inp) bins (0 * ?items))\<lparr>pInputData := 0\<rparr>)
         = Inr ((state_after inp (decode_index inp) bins ?n)\<lparr>pInputData := Suc 0\<rparr>)"
      using n True i64 words cw by (intro Internal_word_loop_tail [OF sok wide]) auto
    then show ?thesis
      using True bits
      by (simp only: BinSumsBoostingInternal_Func_def Let_def init [symmetric] cw
            maskBits_of_def [symmetric]) simp
  next
    case False
    define m where "m = (?n - 1) div ?items"
    define r where "r = (?n - 1) mod ?items + 1"
    have total: "m * ?items + r = ?n"
      using n by (simp add: m_def r_def)
    have m: "1 \<le> m"
    proof -
      have "?items \<le> ?n - 1" using False by simp
      then have "?items div ?items \<le> (?n - 1) div ?items" by (rule div_le_mono)
      then show ?thesis using items by (simp add: m_def)
    qed
    have r: "1 \<le> r" "r \<le> ?items" using items by (simp_all add: r_def Suc_leI)
    have cw: "count_words inp = Suc m"
    proof -
      have "?n + ?items - 1 = (?n - 1) + 1 * ?items" using n by simp
      then have "(?n + ?items - 1) div ?items = (?n - 1) div ?items + 1"
        using items by (simp only: div_mult_self1)
      then show ?thesis by (simp add: count_words_def m_def)
    qed
    have exit: "?S * ?n - ?S * r = ?S * ((0 + m) * ?items)"
    proof -
      have "?S * ?n = ?S * (m * ?items) + ?S * r" using total by (metis distrib_left)
      then show ?thesis by simp
    qed
    have "Internal_word_loop inp (maskBits_of inp) (?S * ?n) (?S * ?n - ?S * r) ?items
           ((state_after inp (decode_index inp) bins (0 * ?items))\<lparr>pInputData := 0\<rparr>)
         = Inr ((state_after inp (decode_index inp) bins ?n)\<lparr>pInputData := Suc (0 + m)\<rparr>)"
      using m total words cw i64 exit
      by (intro Internal_word_loop_full [OF sok wide r(1) r(2)]) auto
    then show ?thesis
      using False bits items
      by (simp only: BinSumsBoostingInternal_Func_def Let_def init [symmetric] cw
            maskBits_of_def [symmetric] r_def) simp
  qed
qed

lemma repeat_decode_sample:
  assumes ok: "samples_ok inp (decode_index inp) bins"
  shows "k + n \<le> in_cSamples inp \<Longrightarrow>
     repeat_step (decode_sample inp) n (state_after inp (decode_index inp) bins k)
       = Inr (state_after inp (decode_index inp) bins (k + n))"
proof (induction n arbitrary: k)
  case 0
  then show ?case by simp
next
  case (Suc n)
  have k: "k < in_cSamples inp" using Suc.prems by simp
  have "Internal_sample inp (decode_index inp k) ((state_after inp (decode_index inp) bins k)\<lparr>pInputData := 0\<rparr>)
      = Inr ((state_after inp (decode_index inp) bins (Suc k))\<lparr>pInputData := 0\<rparr>)"
    by (rule Internal_sample_state_after [OF ok k])
  then have step: "decode_sample inp (state_after inp (decode_index inp) bins k)
      = Inr (state_after inp (decode_index inp) bins (Suc k))"
    by (simp only: state_after_pInputData decode_sample_def state_after_pointers)
  have "repeat_step (decode_sample inp) n (state_after inp (decode_index inp) bins (Suc k))
       = Inr (state_after inp (decode_index inp) bins (Suc k + n))"
    using Suc.prems by (intro Suc.IH) simp
  then show ?case by (simp add: step del: state_after.simps)
qed

lemma repeat_ZeroDim_sample:
  assumes ok: "samples_ok inp (\<lambda>i. 0) bins"
  shows "k + n \<le> in_cSamples inp \<Longrightarrow>
     repeat_step (ZeroDim_sample inp) n (state_after inp (\<lambda>i. 0) bins k)
       = Inr (state_after inp (\<lambda>i. 0) bins (k + n))"
proof (induction n arbitrary: k)
  case 0
  then show ?case by simp
next
  case (Suc n)
  have k: "k < in_cSamples inp" using Suc.prems by simp
  have ne: "aBins (state_after inp (\<lambda>i. 0) bins k) \<noteq> []"
  proof -
    have "0 < length (aBins (state_after inp (\<lambda>i. 0) bins k))"
      using samples_ok_idx [OF ok k] by simp
    then show ?thesis by blast
  qed
  have "Internal_sample inp 0 ((state_after inp (\<lambda>i. 0) bins k)\<lparr>pInputData := 0\<rparr>)
      = Inr ((state_after inp (\<lambda>i. 0) bins (Suc k))\<lparr>pInputData := 0\<rparr>)"
    by (rule Internal_sample_state_after [OF ok k])
  then have step: "ZeroDim_sample inp (state_after inp (\<lambda>i. 0) bins k)
      = Inr (state_after inp (\<lambda>i. 0) bins (Suc k))"
    by (simp only: state_after_pInputData ZeroDim_sample_Internal [OF ne])
  have "repeat_step (ZeroDim_sample inp) n (state_after inp (\<lambda>i. 0) bins (Suc k))
       = Inr (state_after inp (\<lambda>i. 0) bins (Suc k + n))"
    using Suc.prems by (intro Suc.IH) simp
  then show ?case by (simp add: step del: state_after.simps)
qed

lemma ZeroDim_Func_repeat:
  fixes inp :: "('f::{plus,times,zero}) KernelInput"
  assumes ok: "zero_call_ok inp bins"
  shows "\<exists>st. BinSumsBoostingZeroDimensions_Func inp bins = Inr st \<and> full_pass inp st \<and>
              repeat_step (ZeroDim_sample inp) (in_cSamples inp) (init_state bins) = Inr st"
proof -
  have sok: "samples_ok inp (\<lambda>i. 0) bins" using ok by (simp add: zero_call_ok_def)
  have "repeat_step (ZeroDim_sample inp) (in_cSamples inp) (state_after inp (\<lambda>i. 0) bins 0)
          = Inr (state_after inp (\<lambda>i. 0) bins (0 + in_cSamples inp))"
    by (rule repeat_ZeroDim_sample [OF sok]) simp
  then show ?thesis
    using ZeroDim_Func_correct [OF ok] by (simp add: full_pass_def del: state_after.simps(2))
qed

lemma Internal_Func_repeat:
  fixes inp :: "('f::{plus,times,zero}) KernelInput"
  assumes ok: "indexed_call_ok inp bins"
  shows "\<exists>st. BinSumsBoostingInternal_Func inp bins = Inr st \<and> full_pass inp st \<and>
              pInputData st = count_words inp \<and>
              repeat_step (decode_sample inp) (in_cSamples inp) (init_state bins)
                = Inr (st\<lparr>pInputData := 0\<rparr>)"
proof -
  have sok: "samples_ok inp (decode_index inp) bins" using ok by (simp add: indexed_call_ok_def)
  have "repeat_step (decode_sample inp) (in_cSamples inp) (state_after inp (decode_index inp) bins 0)
          = Inr (state_after inp (decode_index inp) bins (0 + in_cSamples inp))"
    by (rule repeat_decode_sample [OF sok]) simp
  then show ?thesis
    using Internal_Func_correct [OF ok]
    by (simp add: full_pass_def state_after_pInputData del: state_after.simps(2))
qed

subsection \<open>Totals over the bins of the reference state\<close>

lemma sum_list_map_update:
  fixes f :: "'a \<Rightarrow> 'b::comm_monoid_add"
  shows "i < length xs \<Longrightarrow> f y = f (xs ! i) + d \<Longrightarrow>
    sum_list (map f (xs[i := y])) = sum_list (map f xs) + d"
proof (induction xs arbitrary: i)
  case Nil
  then show ?case by simp
next
  case (Cons x xs)
  show ?case
  proof (cases i)
    case 0
    with Cons.prems show ?thesis by (simp add: ac_simps)
  next
    case (Suc j)
    with Cons.prems have "sum_list (map f (xs[j := y])) = sum_list (map f xs) + d"
      by (intro Cons.IH) auto
    with Suc show ?thesis by (simp add: ac_simps)
  qed
qed

lemma add_at_fields:
  "m_sumGradients (add_at bC aGH w p gp) = m_sumGradients gp + aGH ! p * w"
  "m_sumHessians (add_at bC aGH w p gp) = (if bC then m_sumHessians gp + aGH ! (p + 1) * w else m_sumHessians gp)"
  by (simp_all add: add_at_def)

lemma bin_add_fields:
  "m_cSamples (bin_add inp i b) = m_cSamples b + in_aCountOccurrences inp ! i"
  "m_weight (bin_add inp i b) = m_weight b + in_aWeights inp ! i"
  by (simp_all add: bin_add_def)

lemma bin_add_pair:
  "s < in_cScores inp \<Longrightarrow> s < length (m_aGradientPairs b) \<Longrightarrow>
   m_aGradientPairs (bin_add inp i b) ! s =
     add_at (in_bClassification inp) (in_aGradientsAndHessians inp) (in_aWeights inp ! i)
       (stride_scores inp * i + stride (in_bClassification inp) * s) (m_aGradientPairs b ! s)"
  by (simp add: bin_add_def nth_add_scores)

lemma state_after_sum_pairs:
  fixes f :: "('v::{plus,times,zero}) Bin \<Rightarrow> 'b::comm_monoid_add"
  assumes step: "\<And>i b. i < n \<Longrightarrow> length (m_aGradientPairs b) = c \<Longrightarrow> f (bin_add inp i b) = f b + g i"
    and pairs: "list_all (\<lambda>b. length (m_aGradientPairs b) = c) bins"
    and idx: "\<forall>i < n. idx i < length bins"
  shows "sum_list (map f (aBins (state_after inp idx bins n)))
           = sum_list (map f bins) + sum_list (map g [0..<n])"
  using step idx
proof (induction n)
  case 0
  then show ?case by (simp add: init_state_def)
next
  case (Suc n)
  let ?bs = "aBins (state_after inp idx bins n)"
  have IH: "sum_list (map f ?bs) = sum_list (map f bins) + sum_list (map g [0..<n])"
    using Suc.prems by (intro Suc.IH) auto
  have i: "idx n < length ?bs" using Suc.prems by simp
  have "list_all (\<lambda>b. length (m_aGradientPairs b) = c) ?bs"
    by (rule state_after_pairs [OF pairs])
  with i have len: "length (m_aGradientPairs (?bs ! idx n)) = c"
    by (simp add: list_all_length)
  have "sum_list (map f (?bs[idx n := bin_add inp n (?bs ! idx n)])) = sum_list (map f ?bs) + g n"
    using i Suc.prems(1) [of n, OF _ len] by (intro sum_list_map_update) auto
  then show ?case by (simp add: Let_def IH ac_simps)
qed

lemma samples_okD:
  assumes "samples_ok inp idx bins"
  shows "list_all (\<lambda>b. length (m_aGradientPairs b) = in_cScores inp) bins"
    and "\<forall>i < in_cSamples inp. idx i < length bins"
    and "in_cSamples inp \<le> length (in_aCountOccurrences inp)"
    and "in_cSamples inp \<le> length (in_aWeights inp)"
  using assms by (simp_all add: samples_ok_def list_all_iff)

lemma state_after_countSamples:
  assumes ok: "samples_ok inp idx bins"
  shows "sum_countSamples (aBins (state_after inp idx bins (in_cSamples inp)))
           = sum_countSamples bins + sum_list (take (in_cSamples inp) (in_aCountOccurrences inp))"
proof -
  have "sum_list (map m_cSamples (aBins (state_after inp idx bins (in_cSamples inp))))
      = sum_list (map m_cSamples bins)
        + sum_list (map (\<lambda>i. in_aCountOccurrences inp ! i) [0..<in_cSamples inp])"
    using samples_okD [OF ok]
    by (intro state_after_sum_pairs [where c = "in_cScores inp"]) (simp_all add: bin_add_fields)
  moreover have "map (\<lambda>i. in_aCountOccurrences inp ! i) [0..<in_cSamples inp]
      = take (in_cSamples inp) (in_aCountOccurrences inp)"
    using samples_okD(3) [OF ok] by (intro nth_equalityI) auto
  ultimately show ?thesis by (simp add: sum_countSamples_def)
qed

lemma pointer_of_score:
  "a * c * i + a * s = a * (c * i + s)" for a :: nat
  by (simp add: algebra_simps)

lemma zeroed_sum_countSamples: "zeroed bins \<Longrightarrow> sum_countSamples bins = 0"
  by (induction bins) (simp_all add: zeroed_def sum_countSamples_def)

subsection \<open>Sums taken in order\<close>

text \<open>
  What the laws of an exact addition give for a sum taken in order, and the two views of
  a field of the bins after a pass: what each bin holds, whatever the addition does, and
  what the bins hold together when the addition is exact.
\<close>

lemma exact_additionD:
  assumes "exact_addition (+) (0::'f::{plus,zero})"
  shows "\<And>a b c :: 'f. a + b + c = a + (b + c)"
    and "\<And>a b :: 'f. a + b = b + a"
    and "\<And>a :: 'f. 0 + a = a"
    and "\<And>a :: 'f. a + 0 = a"
  using assms unfolding exact_addition_def by metis+

lemma foldl_sum_in_order:
  assumes ex: "exact_addition (+) (0::'f::{plus,zero})"
  shows "foldl (+) (a::'f) xs = a + sum_in_order xs"
proof (induction xs arbitrary: a)
  case Nil
  show ?case by (simp add: sum_in_order_def exact_additionD(4) [OF ex])
next
  case (Cons x xs)
  have "foldl (+) a (x # xs) = a + x + sum_in_order xs"
    using Cons.IH [of "a + x"] by simp
  moreover have "sum_in_order (x # xs) = x + sum_in_order xs"
    using Cons.IH [of "0 + x"] by (simp add: sum_in_order_def exact_additionD(3) [OF ex])
  ultimately show ?case by (simp add: exact_additionD(1) [OF ex])
qed

lemma sum_in_order_Cons:
  assumes ex: "exact_addition (+) (0::'f::{plus,zero})"
  shows "sum_in_order (x # xs) = (x::'f) + sum_in_order xs"
  using foldl_sum_in_order [OF ex, of "0 + x" xs] by (simp add: sum_in_order_def exact_additionD(3) [OF ex])

lemma sum_in_order_snoc: "sum_in_order (xs @ [v]) = sum_in_order xs + v"
  by (simp add: sum_in_order_def)

lemma sum_in_order_update:
  assumes ex: "exact_addition (+) (0::'f::{plus,zero})"
  shows "k < length xs \<Longrightarrow> sum_in_order (xs[k := xs ! k + d]) = sum_in_order xs + (d::'f)"
proof (induction xs arbitrary: k)
  case Nil
  then show ?case by simp
next
  case (Cons x xs)
  note assoc = exact_additionD(1) [OF ex] and comm = exact_additionD(2) [OF ex]
  show ?case
  proof (cases k)
    case 0
    have "x + d + sum_in_order xs = x + sum_in_order xs + d"
      by (metis assoc comm)
    then show ?thesis using 0 by (simp add: sum_in_order_Cons [OF ex])
  next
    case (Suc j)
    with Cons.prems have "sum_in_order (xs[j := xs ! j + d]) = sum_in_order xs + d"
      by (intro Cons.IH) simp
    then show ?thesis using Suc by (simp add: sum_in_order_Cons [OF ex] assoc)
  qed
qed

lemma sum_in_order_zero:
  assumes ex: "exact_addition (+) (0::'f::{plus,zero})"
  shows "list_all (\<lambda>x. x = (0::'f)) xs \<Longrightarrow> sum_in_order xs = 0"
  by (induction xs) (simp_all add: sum_in_order_Cons [OF ex] exact_additionD(3) [OF ex], simp add: sum_in_order_def)

lemma sum_in_order_map_update:
  fixes f :: "'a \<Rightarrow> 'f::{plus,zero}"
  assumes ex: "exact_addition (+) (0::'f)"
    and k: "k < length xs" and y: "f y = f (xs ! k) + d"
  shows "sum_in_order (map f (xs[k := y])) = sum_in_order (map f xs) + d"
proof -
  have "map f (xs[k := y]) = (map f xs)[k := map f xs ! k + d]"
    using k y by (simp add: map_update)
  moreover have "sum_in_order ((map f xs)[k := map f xs ! k + d]) = sum_in_order (map f xs) + d"
    using k by (intro sum_in_order_update [OF ex]) simp
  ultimately show ?thesis by simp
qed

lemma state_after_sum_in_order:
  fixes f :: "('f::{plus,times,zero}) Bin \<Rightarrow> 'f"
  assumes ex: "exact_addition (+) (0::'f)"
    and step: "\<And>i b. i < n \<Longrightarrow> length (m_aGradientPairs b) = c \<Longrightarrow> f (bin_add inp i b) = f b + g i"
    and pairs: "list_all (\<lambda>b. length (m_aGradientPairs b) = c) bins"
    and idx: "\<forall>i < n. idx i < length bins"
  shows "sum_in_order (map f (aBins (state_after inp idx bins n)))
           = sum_in_order (map f bins) + sum_in_order (map g [0..<n])"
  using step idx
proof (induction n)
  case 0
  then show ?case by (simp add: init_state_def sum_in_order_def exact_additionD(4) [OF ex])
next
  case (Suc n)
  let ?bs = "aBins (state_after inp idx bins n)"
  have IH: "sum_in_order (map f ?bs) = sum_in_order (map f bins) + sum_in_order (map g [0..<n])"
    using Suc.prems by (intro Suc.IH) auto
  have i: "idx n < length ?bs" using Suc.prems by simp
  have "list_all (\<lambda>b. length (m_aGradientPairs b) = c) ?bs"
    by (rule state_after_pairs [OF pairs])
  with i have len: "length (m_aGradientPairs (?bs ! idx n)) = c"
    by (simp add: list_all_length)
  have "sum_in_order (map f (?bs[idx n := bin_add inp n (?bs ! idx n)])) = sum_in_order (map f ?bs) + g n"
    using i Suc.prems(1) [of n, OF _ len] by (intro sum_in_order_map_update [OF ex]) auto
  moreover have "sum_in_order (map g [0..<Suc n]) = sum_in_order (map g [0..<n]) + g n"
    by (simp add: sum_in_order_snoc)
  ultimately show ?case
    by (simp add: Let_def IH exact_additionD(1) [OF ex])
qed

lemma state_after_in_order:
  fixes f :: "('f::{plus,times,zero}) Bin \<Rightarrow> 'f"
  assumes step: "\<And>i b. i < n \<Longrightarrow> length (m_aGradientPairs b) = c \<Longrightarrow> f (bin_add inp i b) = f b + g i"
    and pairs: "list_all (\<lambda>b. length (m_aGradientPairs b) = c) bins"
    and b: "b < length bins"
  shows "f (aBins (state_after inp idx bins n) ! b)
           = foldl (+) (f (bins ! b)) (map g (filter (\<lambda>i. idx i = b) [0..<n]))"
  using step
proof (induction n)
  case 0
  then show ?case by (simp add: init_state_def)
next
  case (Suc n)
  let ?bs = "aBins (state_after inp idx bins n)"
  have IH: "f (?bs ! b) = foldl (+) (f (bins ! b)) (map g (filter (\<lambda>i. idx i = b) [0..<n]))"
    using Suc.prems by (intro Suc.IH) auto
  have lb: "b < length ?bs" using b by simp
  have "list_all (\<lambda>b. length (m_aGradientPairs b) = c) ?bs"
    by (rule state_after_pairs [OF pairs])
  with lb have len: "length (m_aGradientPairs (?bs ! b)) = c"
    by (simp add: list_all_length)
  show ?case
  proof (cases "idx n = b")
    case True
    have "f ((?bs[idx n := bin_add inp n (?bs ! idx n)]) ! b) = f (?bs ! b) + g n"
      using True lb Suc.prems [of n, OF _ len] by simp
    then show ?thesis using True by (simp add: Let_def IH)
  next
    case False
    then have "f ((?bs[idx n := bin_add inp n (?bs ! idx n)]) ! b) = f (?bs ! b)"
      by simp
    then show ?thesis using False by (simp add: Let_def IH)
  qed
qed



lemma bin_add_sums:
  assumes "s < in_cScores inp" and "length (m_aGradientPairs b) = in_cScores inp"
  shows "sumGradients_of s (bin_add inp i b) = sumGradients_of s b + weighted_gradient inp s i"
    and "in_bClassification inp \<Longrightarrow>
         sumHessians_of s (bin_add inp i b) = sumHessians_of s b + weighted_hessian inp s i"
  using assms
  by (simp_all add: sumGradients_of_def sumHessians_of_def weighted_gradient_def
        weighted_hessian_def bin_add_pair add_at_fields gradient_at_def hessian_at_def
        pointer_of_score)

lemma state_after_gradients_in_order:
  assumes ok: "samples_ok inp idx bins" and s: "s < in_cScores inp"
  shows "gradients_in_order inp idx bins s (aBins (state_after inp idx bins (in_cSamples inp)))"
proof -
  note pairs = samples_okD(1) [OF ok]
  have "sumGradients_of s (aBins (state_after inp idx bins (in_cSamples inp)) ! b)
          = foldl (+) (sumGradients_of s (bins ! b))
              (map (weighted_gradient inp s) (bin_samples inp idx b))"
    if "b < length bins" for b
    unfolding bin_samples_def
    using pairs that
    by (intro state_after_in_order [where c = "in_cScores inp"]) (simp_all add: bin_add_sums [OF s])
  moreover have "sumHessians_of s (aBins (state_after inp idx bins (in_cSamples inp)) ! b)
          = foldl (+) (sumHessians_of s (bins ! b))
              (map (weighted_hessian inp s) (bin_samples inp idx b))"
    if "b < length bins" and "in_bClassification inp" for b
    unfolding bin_samples_def
    using pairs that
    by (intro state_after_in_order [where c = "in_cScores inp"]) (simp_all add: bin_add_sums [OF s])
  ultimately show ?thesis
    by (simp add: gradients_in_order_def list_all_iff)
qed

lemma zeroed_sums:
  fixes bins :: "('f::{plus,zero}) Bin list"
  assumes ex: "exact_addition (+) (0::'f)" and z: "zeroed bins"
  shows "sum_in_order (map m_weight bins) = 0"
    and "list_all (\<lambda>b. s < length (m_aGradientPairs b)) bins \<Longrightarrow>
         sum_in_order (map (sumGradients_of s) bins) = 0 \<and> sum_in_order (map (sumHessians_of s) bins) = 0"
proof -
  have "list_all (\<lambda>x. x = 0) (map m_weight bins)"
    using z by (simp add: zeroed_def list_all_iff)
  then show "sum_in_order (map m_weight bins) = 0" by (rule sum_in_order_zero [OF ex])
  assume "list_all (\<lambda>b. s < length (m_aGradientPairs b)) bins"
  then have "list_all (\<lambda>x. x = 0) (map (sumGradients_of s) bins)"
    and "list_all (\<lambda>x. x = 0) (map (sumHessians_of s) bins)"
    using z by (auto simp: zeroed_def list_all_iff sumGradients_of_def sumHessians_of_def)
  then show "sum_in_order (map (sumGradients_of s) bins) = 0 \<and> sum_in_order (map (sumHessians_of s) bins) = 0"
    using sum_in_order_zero [OF ex] by blast
qed

lemma state_after_gradient_totals:
  fixes inp :: "('f::{plus,times,zero}) KernelInput"
  assumes ex: "exact_addition (+) (0::'f)" and z: "zeroed bins"
    and ok: "samples_ok inp idx bins" and s: "s < in_cScores inp"
  shows "gradient_totals inp s (aBins (state_after inp idx bins (in_cSamples inp)))"
proof -
  note okD = samples_okD [OF ok]
  have "list_all (\<lambda>b. s < length (m_aGradientPairs b)) bins"
    using okD(1) s by (simp add: list_all_iff)
  note zero = zeroed_sums(2) [OF ex z this]
  have "sum_in_order (map (sumGradients_of s) (aBins (state_after inp idx bins (in_cSamples inp))))
          = sum_in_order (map (sumGradients_of s) bins)
            + sum_in_order (map (weighted_gradient inp s) [0..<in_cSamples inp])"
    using okD
    by (intro state_after_sum_in_order [OF ex, where c = "in_cScores inp"]) (simp_all add: bin_add_sums [OF s])
  moreover have "sum_in_order (map (sumHessians_of s) (aBins (state_after inp idx bins (in_cSamples inp))))
          = sum_in_order (map (sumHessians_of s) bins)
            + sum_in_order (map (weighted_hessian inp s) [0..<in_cSamples inp])"
    if "in_bClassification inp"
    using okD that
    by (intro state_after_sum_in_order [OF ex, where c = "in_cScores inp"]) (simp_all add: bin_add_sums [OF s])
  ultimately show ?thesis
    by (simp add: gradient_totals_def zero exact_additionD(3) [OF ex])
qed





subsection \<open>The example inputs meet the contract\<close>

lemmas ex_simps =
  indexed_call_ok_def zero_call_ok_def samples_ok_def count_words_def decode_index_def
  maskBits_of_def k_cBitsForStorageType_def zero_bin_def stride_def upt_rec list_all_iff zeroed_def

lemma ex_regression_ok:
  "indexed_call_ok ex_regression (replicate 4 (zero_bin 1))"
  "zero_call_ok ex_regression (replicate 4 (zero_bin 1))"
  "zeroed (replicate 4 (zero_bin 1 :: int Bin))"
  by (simp_all add: ex_simps ex_regression_def and.commute [of "mask 16"] flip: take_bit_eq_mask)

lemma ex_classification_ok:
  "indexed_call_ok ex_classification (replicate 2 (zero_bin 3))"
  "zero_call_ok ex_classification (replicate 2 (zero_bin 3))"
  "zeroed (replicate 2 (zero_bin 3 :: int Bin))"
  by (simp_all add: ex_simps ex_classification_def and.commute [of "mask 1"] flip: take_bit_eq_mask)

lemma ex_regression_exact: "exact_arrays ex_regression"
  by (simp add: exact_arrays_def ex_regression_def count_words_def stride_def)

subsection \<open>The worked example\<close>

text \<open>
  On the worked example the indexed accumulator leaves one sample in the bins 0, 2 and 3 and two
  in the bin 1, with the gradient sums 0.1, -0.3, 0.05 and 0.3.
\<close>

lemma ex_scenario_ok: "indexed_call_ok ex_scenario (replicate 4 (zero_bin 1))"
  by (simp add: ex_simps ex_scenario_def pack_word_def and.commute [of "mask 16"] flip: take_bit_eq_mask)

lemma ex_scenario_idx: "map (decode_index ex_scenario) [0..<5] = [0, 1, 3, 1, 2]"
  by (simp add: decode_index_def maskBits_of_def k_cBitsForStorageType_def upt_rec ex_scenario_def
        pack_word_def and.commute [of "mask 16"] flip: take_bit_eq_mask)


lemma state_after_numeral:
  "state_after inp idx bins (numeral k) =
     (let st = state_after inp idx bins (pred_numeral k)
      in st\<lparr>aBins := (aBins st)[idx (pred_numeral k) :=
                          bin_add inp (pred_numeral k) (aBins st ! idx (pred_numeral k))],
            pCountOccurrences := numeral k,
            pWeight := numeral k,
            pGradientAndHessian := stride_scores inp * numeral k,
            weightTotalDebug := weightTotalDebug st + in_aWeights inp ! pred_numeral k\<rparr>)"
  by (simp add: numeral_eq_Suc)

lemma ex_scenario_bins:
  "map_sum id aBins (BinSumsBoostingInternal_Func ex_scenario (replicate 4 (zero_bin 1))) =
     Inr [\<lparr>m_cSamples = 1, m_weight = 1, m_aGradientPairs = [\<lparr>m_sumGradients = 1 / 10, m_sumHessians = 0\<rparr>]\<rparr>,
          \<lparr>m_cSamples = 2, m_weight = 2, m_aGradientPairs = [\<lparr>m_sumGradients = - (3 / 10), m_sumHessians = 0\<rparr>]\<rparr>,
          \<lparr>m_cSamples = 1, m_weight = 1, m_aGradientPairs = [\<lparr>m_sumGradients = 5 / 100, m_sumHessians = 0\<rparr>]\<rparr>,
          \<lparr>m_cSamples = 1, m_weight = 1, m_aGradientPairs = [\<lparr>m_sumGradients = 3 / 10, m_sumHessians = 0\<rparr>]\<rparr>]"
proof -
  have n: "in_cSamples ex_scenario = 5"
    by (simp add: ex_scenario_def)
  have idx: "decode_index ex_scenario 0 = 0" "decode_index ex_scenario (Suc 0) = Suc 0"
    "decode_index ex_scenario 2 = Suc (Suc (Suc 0))" "decode_index ex_scenario 3 = Suc 0"
    "decode_index ex_scenario 4 = Suc (Suc 0)"
    using ex_scenario_idx by (simp_all add: upt_rec eval_nat_numeral)
  have b: "replicate 4 (zero_bin (Suc 0) :: real Bin)
             = [zero_bin (Suc 0), zero_bin (Suc 0), zero_bin (Suc 0), zero_bin (Suc 0)]"
    by (simp add: numeral_eq_Suc)
  have f: "in_bClassification ex_scenario = False" "in_cScores ex_scenario = 1"
    "in_aCountOccurrences ex_scenario = [1, 1, 1, 1, 1]" "in_aWeights ex_scenario = [1, 1, 1, 1, 1]"
    "in_aGradientsAndHessians ex_scenario = [1 / 10, - (2 / 10), 3 / 10, - (1 / 10), 5 / 100]"
    by (simp_all add: ex_scenario_def)
  have "aBins (state_after ex_scenario (decode_index ex_scenario)
          [zero_bin 1, zero_bin 1, zero_bin 1, zero_bin 1] 5) =
     [\<lparr>m_cSamples = 1, m_weight = 1, m_aGradientPairs = [\<lparr>m_sumGradients = 1 / 10, m_sumHessians = 0\<rparr>]\<rparr>,
          \<lparr>m_cSamples = 2, m_weight = 2, m_aGradientPairs = [\<lparr>m_sumGradients = - (3 / 10), m_sumHessians = 0\<rparr>]\<rparr>,
          \<lparr>m_cSamples = 1, m_weight = 1, m_aGradientPairs = [\<lparr>m_sumGradients = 5 / 100, m_sumHessians = 0\<rparr>]\<rparr>,
          \<lparr>m_cSamples = 1, m_weight = 1, m_aGradientPairs = [\<lparr>m_sumGradients = 3 / 10, m_sumHessians = 0\<rparr>]\<rparr>]"
    by (simp add: state_after_numeral idx f Let_def init_state_def zero_bin_def bin_add_def
          add_scores_def add_at_def stride_def)
  then show ?thesis
    using Internal_Func_correct [OF ex_scenario_ok] by (simp add: n b)
qed

subsection \<open>The examples in the arithmetic of FloatFast\<close>

text \<open>
  Both accumulators evaluated on the two inputs in rounded arithmetic, and the facts
  about the other examples that the claims use.
\<close>

lemmas float_eval =
  plus_FloatFast_def times_FloatFast_def zero_FloatFast_def round_nearest_even_def
  normalise.simps bit_length.simps Let_def

lemma map_sum_InrD: "map_sum id f r = Inr y \<Longrightarrow> \<exists>st. r = Inr st \<and> f st = y"
  by (cases r) auto

lemma ex_rounding_ok:
  "zero_call_ok ex_rounding [zero_bin 1]"
  "indexed_call_ok ex_rounding [zero_bin 1, zero_bin 1]"
  "zeroed [zero_bin 1 :: FloatFast Bin, zero_bin 1]"
  by (simp_all add: ex_simps ex_rounding_def and.commute [of "mask 16"] flip: take_bit_eq_mask)

lemma ex_rounding_idx: "map (decode_index ex_rounding) [0..<4] = [0, 1, 0, 1]"
  by (simp add: decode_index_def maskBits_of_def k_cBitsForStorageType_def upt_rec ex_rounding_def
        and.commute [of "mask 16"] flip: take_bit_eq_mask)

lemma ex_rounding_fields:
  "in_bClassification ex_rounding = False" "in_cScores ex_rounding = 1"
  "in_cSamples ex_rounding = 4"
  "in_aCountOccurrences ex_rounding = [1, 1, 1, 1]"
  "in_aWeights ex_rounding = [Dyadic 1 0, Dyadic 1 0, Dyadic 1 0, Dyadic 1 0]"
  "in_aGradientsAndHessians ex_rounding = [Dyadic 1 53, Dyadic 1 0, Dyadic (- 1) 53, Dyadic 1 0]"
  by (simp_all add: ex_rounding_def)

lemma ex_rounding_indexed:
  "map_sum id aBins (BinSumsBoostingInternal_Func ex_rounding [zero_bin 1, zero_bin 1]) =
     Inr [\<lparr>m_cSamples = 2, m_weight = Dyadic 1 1,
           m_aGradientPairs = [\<lparr>m_sumGradients = Dyadic 0 0, m_sumHessians = Dyadic 0 0\<rparr>]\<rparr>,
          \<lparr>m_cSamples = 2, m_weight = Dyadic 1 1,
           m_aGradientPairs = [\<lparr>m_sumGradients = Dyadic 1 1, m_sumHessians = Dyadic 0 0\<rparr>]\<rparr>]"
proof -
  have idx: "decode_index ex_rounding 0 = 0" "decode_index ex_rounding (Suc 0) = Suc 0"
    "decode_index ex_rounding 2 = 0" "decode_index ex_rounding 3 = Suc 0"
    using ex_rounding_idx by (simp_all add: upt_rec eval_nat_numeral)
  have "aBins (state_after ex_rounding (decode_index ex_rounding) [zero_bin 1, zero_bin 1] 4) =
     [\<lparr>m_cSamples = 2, m_weight = Dyadic 1 1,
           m_aGradientPairs = [\<lparr>m_sumGradients = Dyadic 0 0, m_sumHessians = Dyadic 0 0\<rparr>]\<rparr>,
          \<lparr>m_cSamples = 2, m_weight = Dyadic 1 1,
           m_aGradientPairs = [\<lparr>m_sumGradients = Dyadic 1 1, m_sumHessians = Dyadic 0 0\<rparr>]\<rparr>]"
    by (simp add: state_after_numeral idx ex_rounding_fields init_state_def zero_bin_def bin_add_def
          add_scores_def add_at_def stride_def float_eval)
  then show ?thesis
    using Internal_Func_correct [OF ex_rounding_ok(2)] by (simp add: ex_rounding_fields)
qed

lemma ex_rounding_zero:
  "map_sum id aBins (BinSumsBoostingZeroDimensions_Func ex_rounding [zero_bin 1]) =
     Inr [\<lparr>m_cSamples = 4, m_weight = Dyadic 1 2,
           m_aGradientPairs = [\<lparr>m_sumGradients = Dyadic 1 0, m_sumHessians = Dyadic 0 0\<rparr>]\<rparr>]"
proof -
  have "aBins (state_after ex_rounding (\<lambda>i. 0) [zero_bin 1] 4) =
     [\<lparr>m_cSamples = 4, m_weight = Dyadic 1 2,
           m_aGradientPairs = [\<lparr>m_sumGradients = Dyadic 1 0, m_sumHessians = Dyadic 0 0\<rparr>]\<rparr>]"
    by (simp add: state_after_numeral ex_rounding_fields init_state_def zero_bin_def bin_add_def
          add_scores_def add_at_def stride_def float_eval)
  then show ?thesis
    using ZeroDim_Func_correct [OF ex_rounding_ok(1)] by (simp add: ex_rounding_fields)
qed

lemma ex_rounding_totals:
  "sum_in_order (map (sumGradients_of 0)
     [\<lparr>m_cSamples = 4, m_weight = Dyadic 1 2,
           m_aGradientPairs = [\<lparr>m_sumGradients = Dyadic 1 0, m_sumHessians = Dyadic 0 0\<rparr>]\<rparr>]) = Dyadic 1 0"
  "sum_in_order (map (sumGradients_of 0)
     [\<lparr>m_cSamples = 2, m_weight = Dyadic 1 1,
           m_aGradientPairs = [\<lparr>m_sumGradients = Dyadic 0 0, m_sumHessians = Dyadic 0 0\<rparr>]\<rparr>,
          \<lparr>m_cSamples = 2, m_weight = Dyadic 1 1,
           m_aGradientPairs = [\<lparr>m_sumGradients = Dyadic 1 1, m_sumHessians = Dyadic 0 0\<rparr>]\<rparr>]) = Dyadic 1 1"
  by (simp_all add: sum_in_order_def sumGradients_of_def float_eval)

lemma ex_rounding_weighted:
  "map (weighted_gradient ex_rounding 0) [0..<in_cSamples ex_rounding]
     = [Dyadic 1 53, Dyadic 1 0, Dyadic (- 1) 53, Dyadic 1 0]"
  by (simp add: weighted_gradient_def gradient_at_def ex_rounding_fields stride_def upt_rec
        float_eval)

lemma ex_rounding_in_order:
  "sum_in_order [Dyadic 1 53, Dyadic 1 0, Dyadic (- 1) 53, Dyadic 1 0] = Dyadic 1 0"
  by (simp add: sum_in_order_def float_eval)

lemma ex_rounding_exact:
  "sum_list (map valof [Dyadic 1 53, Dyadic 1 0, Dyadic (- 1) 53, Dyadic 1 0]) = 2"
  "valof (Dyadic 1 0) = 1" "valof (Dyadic 1 1) = 2"
  by (simp_all add: valof_def)








lemma ex_classification_samples:
  "bin_samples ex_classification (\<lambda>i. 0) 0 = [0, Suc 0]"
  "bin_samples ex_classification (decode_index ex_classification) (Suc 0) = [0, Suc 0]"
  by (simp_all add: bin_samples_def decode_index_def maskBits_of_def k_cBitsForStorageType_def
        upt_rec ex_classification_def and.commute [of "mask 1"] flip: take_bit_eq_mask)

lemma ex_classification_weighted:
  "weighted_gradient ex_classification 0 0 = 2" "weighted_gradient ex_classification 0 (Suc 0) = 12"
  "weighted_hessian ex_classification 0 0 = 20" "weighted_hessian ex_classification 0 (Suc 0) = 120"
  "[0..<in_cSamples ex_classification] = [0, Suc 0]"
  by (simp_all add: weighted_gradient_def weighted_hessian_def gradient_at_def hessian_at_def
        ex_classification_def stride_def upt_rec)


lemma ex_full_width_asserts: "indexed_asserts_hold ex_full_width [zero_bin 1]"
  by (simp add: indexed_asserts_hold_def ex_simps ex_full_width_def)

section \<open>The claims\<close>

subsection \<open>C1: weighted gradient and hessian sums\<close>

text \<open>
  Claim C1 as it is stated, in the arithmetic of \<open>FloatFast\<close>: four samples with unit
  weights and the gradients \<open>2^53\<close>, 1, \<open>- 2^53\<close> and 1. The zero-dimension accumulator
  adds them in sample order and ends with 1, since \<open>2^53 + 1\<close> rounds to \<open>2^53\<close>. The
  indexed accumulator, with the samples in the bins 0, 1, 0, 1, ends with 0 in bin 0
  and 2 in bin 1, which sum to 2. The weighted sum over the samples is one number, 1
  when it is added in sample order and 2 in exact arithmetic: the two calls cannot both
  end with it.
\<close>

theorem rounded_gradient_sums_counterexample:
  "zero_call_ok ex_rounding [zero_bin 1] \<and>
   indexed_call_ok ex_rounding [zero_bin 1, zero_bin 1] \<and>
   map_sum id (\<lambda>st. sum_in_order (map (sumGradients_of 0) (aBins st)))
     (BinSumsBoostingZeroDimensions_Func ex_rounding [zero_bin 1]) = Inr (Dyadic 1 0) \<and>
   map_sum id (\<lambda>st. sum_in_order (map (sumGradients_of 0) (aBins st)))
     (BinSumsBoostingInternal_Func ex_rounding [zero_bin 1, zero_bin 1]) = Inr (Dyadic 1 1) \<and>
   sum_in_order (map (weighted_gradient ex_rounding 0) [0..<in_cSamples ex_rounding]) = Dyadic 1 0 \<and>
   sum_list (map valof (map (weighted_gradient ex_rounding 0) [0..<in_cSamples ex_rounding])) = 2 \<and>
   valof (Dyadic 1 0) = 1 \<and> valof (Dyadic 1 1) = 2"
proof -
  obtain st0 where z: "BinSumsBoostingZeroDimensions_Func ex_rounding [zero_bin 1] = Inr st0"
    "sum_in_order (map (sumGradients_of 0) (aBins st0)) = Dyadic 1 0"
    using map_sum_InrD [OF ex_rounding_zero] ex_rounding_totals(1) by metis
  obtain st1 where i: "BinSumsBoostingInternal_Func ex_rounding [zero_bin 1, zero_bin 1] = Inr st1"
    "sum_in_order (map (sumGradients_of 0) (aBins st1)) = Dyadic 1 1"
    using map_sum_InrD [OF ex_rounding_indexed] ex_rounding_totals(2) by metis
  show ?thesis
    using ex_rounding_ok(1,2) ex_rounding_exact z i
    by (simp add: ex_rounding_weighted ex_rounding_in_order)
qed

text \<open>
  Claim C1, amended. Every call, zero-dimension or indexed, that meets its contract
  returns, and for every score index \<open>s\<close> every bin ends with \<open>sumGradients\<close> of pair \<open>s\<close>
  as it was before the call plus the contributions \<open>gradient(i, s) * weight[i]\<close> of the
  samples \<open>i\<close> that go to that bin, each added in its turn in sample order, the gradient
  read at its interleaved position; for classification the same holds for \<open>sumHessians\<close>
  with the hessian read right after the gradient. Where the addition is exact, the sums
  of these fields over all bins of a zeroed buffer are the weighted sums over all
  samples.
\<close>

theorem gradient_sums_in_order:
  fixes inp :: "('f::{plus,times,zero}) KernelInput"
  shows "(zero_call_ok inp bins \<and> s < in_cScores inp \<longrightarrow>
            (\<exists>st. BinSumsBoostingZeroDimensions_Func inp bins = Inr st \<and>
                  gradients_in_order inp (\<lambda>i. 0) bins s (aBins st) \<and>
                  (exact_addition (+) (0::'f) \<and> zeroed bins \<longrightarrow>
                     gradient_totals inp s (aBins st)))) \<and>
         (indexed_call_ok inp bins \<and> s < in_cScores inp \<longrightarrow>
            (\<exists>st. BinSumsBoostingInternal_Func inp bins = Inr st \<and>
                  gradients_in_order inp (decode_index inp) bins s (aBins st) \<and>
                  (exact_addition (+) (0::'f) \<and> zeroed bins \<longrightarrow>
                     gradient_totals inp s (aBins st))))"
proof (intro conjI impI; elim conjE)
  assume ok: "zero_call_ok inp bins" and s: "s < in_cScores inp"
  then have sok: "samples_ok inp (\<lambda>i. 0) bins" by (simp add: zero_call_ok_def)
  show "\<exists>st. BinSumsBoostingZeroDimensions_Func inp bins = Inr st \<and>
             gradients_in_order inp (\<lambda>i. 0) bins s (aBins st) \<and>
             (exact_addition (+) (0::'f) \<and> zeroed bins \<longrightarrow> gradient_totals inp s (aBins st))"
    using ZeroDim_Func_correct [OF ok] state_after_gradients_in_order [OF sok s]
      state_after_gradient_totals [OF _ _ sok s]
    by simp
next
  assume ok: "indexed_call_ok inp bins" and s: "s < in_cScores inp"
  then have sok: "samples_ok inp (decode_index inp) bins" by (simp add: indexed_call_ok_def)
  show "\<exists>st. BinSumsBoostingInternal_Func inp bins = Inr st \<and>
             gradients_in_order inp (decode_index inp) bins s (aBins st) \<and>
             (exact_addition (+) (0::'f) \<and> zeroed bins \<longrightarrow> gradient_totals inp s (aBins st))"
    using Internal_Func_correct [OF ok] state_after_gradients_in_order [OF sok s]
      state_after_gradient_totals [OF _ _ sok s]
    by simp
qed

theorem gradient_sums_in_order_witness:
  "zero_call_ok ex_classification (replicate 2 (zero_bin 3)) \<and>
   indexed_call_ok ex_classification (replicate 2 (zero_bin 3)) \<and>
   exact_addition (+) (0::int) \<and> zeroed (replicate 2 (zero_bin 3 :: int Bin)) \<and>
   (\<exists>st. BinSumsBoostingZeroDimensions_Func ex_classification (replicate 2 (zero_bin 3)) = Inr st \<and>
         sumGradients_of 0 (aBins st ! 0) = 14 \<and> sumHessians_of 0 (aBins st ! 0) = 140 \<and>
         sum_in_order (map (sumGradients_of 0) (aBins st)) = 14 \<and>
         sum_in_order (map (sumHessians_of 0) (aBins st)) = 140) \<and>
   (\<exists>st. BinSumsBoostingInternal_Func ex_classification (replicate 2 (zero_bin 3)) = Inr st \<and>
         sumGradients_of 0 (aBins st ! 1) = 14 \<and> sumHessians_of 0 (aBins st ! 1) = 140 \<and>
         sum_in_order (map (sumGradients_of 0) (aBins st)) = 14 \<and>
         sum_in_order (map (sumHessians_of 0) (aBins st)) = 140)"
proof -
  let ?bins = "replicate 2 (zero_bin 3) :: int Bin list"
  have c: "0 < in_cScores ex_classification" "in_bClassification ex_classification"
    and e: "exact_addition (+) (0::int)"
    and b: "sumGradients_of 0 (zero_bin 3 :: int Bin) = 0"
      "sumHessians_of 0 (zero_bin 3 :: int Bin) = 0" "length ?bins = 2"
    by (simp_all add: ex_classification_def exact_addition_def sumGradients_of_def
          sumHessians_of_def zero_bin_def)
  note inst = gradient_sums_in_order [of ex_classification ?bins 0]
  from inst ex_classification_ok(2) c(1) obtain st0 where
    r0: "BinSumsBoostingZeroDimensions_Func ex_classification ?bins = Inr st0"
    and o0: "gradients_in_order ex_classification (\<lambda>i. 0) ?bins 0 (aBins st0)"
    and t0: "exact_addition (+) (0::int) \<and> zeroed ?bins \<longrightarrow>
               gradient_totals ex_classification 0 (aBins st0)"
    by blast
  from inst ex_classification_ok(1) c(1) obtain st1 where
    r1: "BinSumsBoostingInternal_Func ex_classification ?bins = Inr st1"
    and o1: "gradients_in_order ex_classification (decode_index ex_classification) ?bins 0 (aBins st1)"
    and t1: "exact_addition (+) (0::int) \<and> zeroed ?bins \<longrightarrow>
               gradient_totals ex_classification 0 (aBins st1)"
    by blast
  have g0: "sumGradients_of 0 (aBins st0 ! 0) = 14 \<and> sumHessians_of 0 (aBins st0 ! 0) = 140"
    using o0 c(2) unfolding gradients_in_order_def list_all_iff b(3)
    by (simp add: b ex_classification_samples ex_classification_weighted)
  have g1: "sumGradients_of 0 (aBins st1 ! 1) = 14 \<and> sumHessians_of 0 (aBins st1 ! 1) = 140"
    using o1 c(2) unfolding gradients_in_order_def list_all_iff b(3)
    by (simp add: b ex_classification_samples ex_classification_weighted)
  have s0: "sum_in_order (map (sumGradients_of 0) (aBins st0)) = 14 \<and>
            sum_in_order (map (sumHessians_of 0) (aBins st0)) = 140"
    using t0 e ex_classification_ok(3) c(2)
    by (simp add: gradient_totals_def ex_classification_weighted sum_in_order_def)
  have s1: "sum_in_order (map (sumGradients_of 0) (aBins st1)) = 14 \<and>
            sum_in_order (map (sumHessians_of 0) (aBins st1)) = 140"
    using t1 e ex_classification_ok(3) c(2)
    by (simp add: gradient_totals_def ex_classification_weighted sum_in_order_def)
  show ?thesis
    using ex_classification_ok e r0 r1 g0 g1 s0 s1 by blast
qed

subsection \<open>C2: the last packed word\<close>

lemma last_word_split:
  assumes n: "0 < n" and k: "0 < k"
  shows "(n + k - 1) div k = Suc ((n - 1) div k)"
    and "((n - 1) div k) * k + (if n mod k = 0 then k else n mod k) = (n::nat)"
proof -
  have "n + k - 1 = (n - 1) + 1 * k" using n by simp
  then have "(n + k - 1) div k = (n - 1) div k + 1"
    using k by (simp only: div_mult_self1)
  then show "(n + k - 1) div k = Suc ((n - 1) div k)" by simp
  have "Suc (n - 1) mod k = (if Suc ((n - 1) mod k) = k then 0 else Suc ((n - 1) mod k))"
    by (rule mod_Suc)
  then have m: "n mod k = (if Suc ((n - 1) mod k) = k then 0 else Suc ((n - 1) mod k))"
    using n by simp
  have r: "(if n mod k = 0 then k else n mod k) = Suc ((n - 1) mod k)"
    using m by (auto split: if_splits)
  have "(n - 1) div k * k + (n - 1) mod k = n - 1" by simp
  then show "((n - 1) div k) * k + (if n mod k = 0 then k else n mod k) = n"
    using n unfolding r by linarith
qed

text \<open>
  Claim C2. For an indexed call whose arrays have exactly the lengths the sample count
  requires, the accumulator returns with the four pointers at the ends of their arrays:
  exactly \<open>cSamples\<close> samples were processed and no read was outside an array, since
  such a read is a fault, as is a shift by the width of the word. The final state is the
  inner extraction loop run on the last word with bound \<open>cSamples mod cItemsPerBitPack\<close>,
  or \<open>cItemsPerBitPack\<close> when that is zero, from a state in which all other samples had
  been consumed.
\<close>

theorem tail_word_exact:
  fixes inp :: "('f::{plus,times,zero}) KernelInput"
  assumes ok: "indexed_call_ok inp bins" and exact: "exact_arrays inp"
  shows "\<exists>st1 st.
           BinSumsBoostingInternal_Func inp bins = Inr st \<and>
           pCountOccurrences st = length (in_aCountOccurrences inp) \<and>
           pWeight st = length (in_aWeights inp) \<and>
           pGradientAndHessian st = length (in_aGradientsAndHessians inp) \<and>
           pInputData st = length (in_aInputData inp) \<and>
           pCountOccurrences st1 = in_cSamples inp - cItemsLast inp \<and>
           Internal_item_loop inp (maskBits_of inp) (last (in_aInputData inp))
               (cItemsLast inp) st1
             = Inr st"
proof -
  let ?items = "in_cItemsPerBitPack inp"
  let ?n = "in_cSamples inp"
  let ?j = "(?n - 1) div ?items"
  let ?st1 = "(state_after inp (decode_index inp) bins (?j * ?items + 0))\<lparr>pInputData := count_words inp\<rparr>"
  let ?st = "(state_after inp (decode_index inp) bins ?n)\<lparr>pInputData := count_words inp\<rparr>"
  have sok: "samples_ok inp (decode_index inp) bins"
    and n: "0 < ?n" and items: "0 < ?items" "?items \<le> 64"
    using ok by (simp_all add: indexed_call_ok_def k_cBitsForStorageType_def)
  have wide: "in_cBitsPerItemMax inp < k_cBitsForStorageType"
    using ok by (simp add: indexed_call_ok_def)
  have cw: "count_words inp = Suc ?j"
    unfolding count_words_def by (rule last_word_split(1) [OF n items(1)])
  have total: "?j * ?items + cItemsLast inp = ?n"
    unfolding cItemsLast_def by (rule last_word_split(2) [OF n items(1)])
  have r: "1 \<le> cItemsLast inp" "cItemsLast inp \<le> ?items"
    using items by (simp_all add: cItemsLast_def Suc_leI mod_le_divisor)
  have "Internal_item_loop inp (maskBits_of inp)
          (drop_bit (in_cBitsPerItemMax inp * 0) (in_aInputData inp ! ?j)) (cItemsLast inp) ?st1
        = Inr ((state_after inp (decode_index inp) bins (?j * ?items + 0 + cItemsLast inp))
                 \<lparr>pInputData := count_words inp\<rparr>)"
    using r items total by (intro Internal_item_loop_correct [OF sok wide]) auto
  moreover have "last (in_aInputData inp) = in_aInputData inp ! ?j"
  proof -
    have len: "length (in_aInputData inp) = Suc ?j" using exact cw by (simp add: exact_arrays_def)
    then have "in_aInputData inp \<noteq> []" by auto
    then show ?thesis using len by (simp add: last_conv_nth)
  qed
  ultimately have item:
    "Internal_item_loop inp (maskBits_of inp) (last (in_aInputData inp)) (cItemsLast inp) ?st1
       = Inr ?st"
    using total by simp
  have "pCountOccurrences ?st1 = ?n - cItemsLast inp" using total by simp
  moreover have "BinSumsBoostingInternal_Func inp bins = Inr ?st"
    by (rule Internal_Func_correct [OF ok])
  ultimately show ?thesis
    using item exact
    by (intro exI [of _ ?st1] exI [of _ ?st]) (simp add: exact_arrays_def)
qed

theorem tail_word_exact_witness:
  "indexed_call_ok ex_regression (replicate 4 (zero_bin 1)) \<and> exact_arrays ex_regression \<and>
   in_cSamples ex_regression mod in_cItemsPerBitPack ex_regression = 1 \<and>
   (\<exists>st1 st.
       BinSumsBoostingInternal_Func ex_regression (replicate 4 (zero_bin 1)) = Inr st \<and>
       pCountOccurrences st = 5 \<and> pWeight st = 5 \<and> pGradientAndHessian st = 5 \<and>
       pInputData st = 2 \<and> pCountOccurrences st1 = 4 \<and>
       Internal_item_loop ex_regression (maskBits_of ex_regression) 2 1 st1 = Inr st) \<and>
   indexed_call_ok ex_rounding [zero_bin 1, zero_bin 1] \<and> exact_arrays ex_rounding \<and>
   in_cSamples ex_rounding mod in_cItemsPerBitPack ex_rounding = 0 \<and>
   (\<exists>st1 st.
       BinSumsBoostingInternal_Func ex_rounding [zero_bin 1, zero_bin 1] = Inr st \<and>
       pCountOccurrences st = 4 \<and> pWeight st = 4 \<and> pGradientAndHessian st = 4 \<and>
       pInputData st = 1 \<and> pCountOccurrences st1 = 0 \<and>
       Internal_item_loop ex_rounding (maskBits_of ex_rounding) 0x0001000000010000 4 st1 = Inr st)"
proof -
  have c: "cItemsLast ex_regression = 1" "last (in_aInputData ex_regression) = 2"
    "length (in_aCountOccurrences ex_regression) = 5" "length (in_aWeights ex_regression) = 5"
    "length (in_aGradientsAndHessians ex_regression) = 5" "length (in_aInputData ex_regression) = 2"
    "in_cSamples ex_regression = 5" "in_cItemsPerBitPack ex_regression = 4"
    by (simp_all add: cItemsLast_def ex_regression_def)
  have d: "cItemsLast ex_rounding = 4" "last (in_aInputData ex_rounding) = 0x0001000000010000"
    "length (in_aCountOccurrences ex_rounding) = 4" "length (in_aWeights ex_rounding) = 4"
    "length (in_aGradientsAndHessians ex_rounding) = 4" "length (in_aInputData ex_rounding) = 1"
    "in_cSamples ex_rounding = 4" "in_cItemsPerBitPack ex_rounding = 4"
    by (simp_all add: cItemsLast_def ex_rounding_def)
  have e: "exact_arrays ex_rounding"
    by (simp add: exact_arrays_def ex_rounding_def count_words_def stride_def)
  have "\<exists>st1 st.
       BinSumsBoostingInternal_Func ex_regression (replicate 4 (zero_bin 1)) = Inr st \<and>
       pCountOccurrences st = 5 \<and> pWeight st = 5 \<and> pGradientAndHessian st = 5 \<and>
       pInputData st = 2 \<and> pCountOccurrences st1 = 4 \<and>
       Internal_item_loop ex_regression (maskBits_of ex_regression) 2 1 st1 = Inr st"
    using tail_word_exact [OF ex_regression_ok(1) ex_regression_exact] by (simp add: c)
  moreover have "\<exists>st1 st.
       BinSumsBoostingInternal_Func ex_rounding [zero_bin 1, zero_bin 1] = Inr st \<and>
       pCountOccurrences st = 4 \<and> pWeight st = 4 \<and> pGradientAndHessian st = 4 \<and>
       pInputData st = 1 \<and> pCountOccurrences st1 = 0 \<and>
       Internal_item_loop ex_rounding (maskBits_of ex_rounding) 0x0001000000010000 4 st1 = Inr st"
    using tail_word_exact [OF ex_rounding_ok(2) e] by (simp add: d)
  ultimately show ?thesis
    using ex_regression_ok(1) ex_regression_exact ex_rounding_ok(2) e
    by (simp add: c d)
qed

subsection \<open>C3: the sample counts\<close>

lemma state_after_countSamples_nat:
  fixes inp :: "('f::{plus,times,zero}) KernelInput"
  assumes idx: "\<forall>i < n. idx i < length bins"
    and bound: "sum_countSamples_nat bins
                  + sum_list (map (\<lambda>i. unat (in_aCountOccurrences inp ! i)) [0..<n]) < 2 ^ 64"
  shows "sum_countSamples_nat (aBins (state_after inp idx bins n))
           = sum_countSamples_nat bins
             + sum_list (map (\<lambda>i. unat (in_aCountOccurrences inp ! i)) [0..<n])"
  using assms
proof (induction n)
  case 0
  then show ?case by (simp add: init_state_def)
next
  case (Suc n)
  let ?bs = "aBins (state_after inp idx bins n)"
  let ?o = "in_aCountOccurrences inp ! n"
  have IH: "sum_countSamples_nat ?bs = sum_countSamples_nat bins
             + sum_list (map (\<lambda>i. unat (in_aCountOccurrences inp ! i)) [0..<n])"
    using Suc.prems by (intro Suc.IH) auto
  have i: "idx n < length ?bs" using Suc.prems by simp
  have "unat (m_cSamples (?bs ! idx n)) \<in> set (map (\<lambda>b. unat (m_cSamples b)) ?bs)"
    using i by (auto simp: in_set_conv_nth intro!: image_eqI [where x = "?bs ! idx n"])
  then have "unat (m_cSamples (?bs ! idx n)) \<le> sum_countSamples_nat ?bs"
    unfolding sum_countSamples_nat_def by (intro member_le_sum_list) auto
  then have "unat (m_cSamples (?bs ! idx n)) + unat ?o < 2 ^ 64"
    using Suc.prems(2) IH by simp
  then have add: "unat (m_cSamples (?bs ! idx n) + ?o) = unat (m_cSamples (?bs ! idx n)) + unat ?o"
    using unat_add_lem [of "m_cSamples (?bs ! idx n)" ?o] by simp
  have "sum_list (map (\<lambda>b. unat (m_cSamples b)) (?bs[idx n := bin_add inp n (?bs ! idx n)]))
          = sum_list (map (\<lambda>b. unat (m_cSamples b)) ?bs) + unat ?o"
    using i add by (intro sum_list_map_update) (simp_all add: bin_add_fields)
  then show ?case
    using IH by (simp add: Let_def sum_countSamples_nat_def)
qed

lemma zeroed_sum_nat: "zeroed bins \<Longrightarrow> sum_countSamples_nat bins = 0"
  by (induction bins) (simp_all add: zeroed_def sum_countSamples_nat_def)

lemma state_after_counts_agree:
  fixes inp :: "('f::{plus,times,zero}) KernelInput"
  assumes ok: "samples_ok inp idx bins" and z: "zeroed bins"
    and bs: "aBins st = aBins (state_after inp idx bins (in_cSamples inp))"
  shows "counts_agree inp st"
proof -
  have occ: "map (\<lambda>i. unat (in_aCountOccurrences inp ! i)) [0..<in_cSamples inp]
      = map unat (take (in_cSamples inp) (in_aCountOccurrences inp))"
    using samples_okD(3) [OF ok] by (intro nth_equalityI) auto
  have "sum_countSamples_nat (aBins st) = total_occurrences inp"
    if "total_occurrences inp < 2 ^ 64"
    unfolding bs
    using state_after_countSamples_nat [of "in_cSamples inp" idx bins inp]
      samples_okD(2) [OF ok] that zeroed_sum_nat [OF z]
    by (simp add: total_occurrences_def occ)
  then show ?thesis
    unfolding counts_agree_def bs
    using state_after_countSamples [OF ok] zeroed_sum_countSamples [OF z] by simp
qed

text \<open>
  Claim C3. On a zeroed bin buffer, after one pass over one inner bag, the sum of
  \<open>countSamples\<close> over all bins equals the sum of the occurrence counts of all samples,
  in the zero-dimension and in the indexed path: as \<open>size_t\<close> values always, and as
  natural numbers whenever the sum of the occurrences fits in a \<open>size_t\<close>.
\<close>

theorem countSamples_total:
  fixes inp :: "('f::{plus,times,zero}) KernelInput"
  shows "(zero_call_ok inp bins \<and> zeroed bins \<longrightarrow>
            (\<exists>st. BinSumsBoostingZeroDimensions_Func inp bins = Inr st \<and> counts_agree inp st)) \<and>
         (indexed_call_ok inp bins \<and> zeroed bins \<longrightarrow>
            (\<exists>st. BinSumsBoostingInternal_Func inp bins = Inr st \<and> counts_agree inp st))"
proof (intro conjI impI; elim conjE)
  assume ok: "zero_call_ok inp bins" and z: "zeroed bins"
  then have sok: "samples_ok inp (\<lambda>i. 0) bins" by (simp add: zero_call_ok_def)
  show "\<exists>st. BinSumsBoostingZeroDimensions_Func inp bins = Inr st \<and> counts_agree inp st"
    using ZeroDim_Func_correct [OF ok] state_after_counts_agree [OF sok z] by simp
next
  assume ok: "indexed_call_ok inp bins" and z: "zeroed bins"
  then have sok: "samples_ok inp (decode_index inp) bins" by (simp add: indexed_call_ok_def)
  show "\<exists>st. BinSumsBoostingInternal_Func inp bins = Inr st \<and> counts_agree inp st"
    using Internal_Func_correct [OF ok] state_after_counts_agree [OF sok z] by simp
qed

theorem countSamples_total_witness:
  "zero_call_ok ex_regression (replicate 4 (zero_bin 1)) \<and>
   indexed_call_ok ex_regression (replicate 4 (zero_bin 1)) \<and>
   zeroed (replicate 4 (zero_bin 1 :: int Bin)) \<and>
   total_occurrences ex_regression < 2 ^ 64 \<and>
   (\<exists>st. BinSumsBoostingZeroDimensions_Func ex_regression (replicate 4 (zero_bin 1)) = Inr st \<and>
         sum_countSamples (aBins st) = 6 \<and> sum_countSamples_nat (aBins st) = 6) \<and>
   (\<exists>st. BinSumsBoostingInternal_Func ex_regression (replicate 4 (zero_bin 1)) = Inr st \<and>
         sum_countSamples (aBins st) = 6 \<and> sum_countSamples_nat (aBins st) = 6)"
proof -
  have t: "total_occurrences ex_regression = 6"
    "sum_list (take (in_cSamples ex_regression) (in_aCountOccurrences ex_regression)) = 6"
    by (simp_all add: total_occurrences_def ex_regression_def)
  show ?thesis
    using countSamples_total [of ex_regression "replicate 4 (zero_bin 1)"] ex_regression_ok
    by (auto simp: counts_agree_def t)
qed

subsection \<open>C4: the packed fields of a storage word\<close>

lemma maskBits_is_mask:
  assumes "bits \<le> 64"
  shows "drop_bit (64 - bits) (NOT 0 :: 64 word) = mask bits"
proof (rule bit_word_eqI)
  fix k
  assume "k < LENGTH(64)"
  then show "bit (drop_bit (64 - bits) (NOT 0 :: 64 word)) k \<longleftrightarrow> bit (mask bits :: 64 word) k"
    using assms by (auto simp: bit_drop_bit_eq bit_mask_iff bit_not_iff possible_bit_def)
qed

lemma decode_field_nat:
  assumes "bits \<le> 64"
  shows "unat (drop_bit (k_cBitsForStorageType - bits) (NOT 0 :: 64 word) AND drop_bit n w)
           = (unat w div 2 ^ n) mod 2 ^ bits"
proof -
  have "unat (mask bits AND drop_bit n w) = unat (take_bit bits (drop_bit n w))"
    by (simp add: take_bit_eq_mask and.commute)
  also have "\<dots> = take_bit bits (drop_bit n (unat w))"
    by (simp add: unsigned_take_bit_eq unat_drop_bit_eq)
  also have "\<dots> = (unat w div 2 ^ n) mod 2 ^ bits"
    by (simp add: take_bit_eq_mod drop_bit_eq_div)
  finally show ?thesis
    using maskBits_is_mask [OF assms] by (simp add: k_cBitsForStorageType_def)
qed

lemma pack_nat_bound:
  "list_all (\<lambda>f. f < 2 ^ bits) fs \<Longrightarrow> pack_nat bits fs < 2 ^ (bits * length fs)"
proof (induction fs)
  case Nil
  then show ?case by simp
next
  case (Cons f fs)
  then have f: "f < 2 ^ bits" and R: "pack_nat bits fs < 2 ^ (bits * length fs)" by simp_all
  have "f + 2 ^ bits * pack_nat bits fs < 2 ^ bits + 2 ^ bits * pack_nat bits fs"
    using f by simp
  also have "\<dots> = 2 ^ bits * Suc (pack_nat bits fs)" by simp
  also have "\<dots> \<le> 2 ^ bits * 2 ^ (bits * length fs)"
    using R by (intro mult_le_mono2) simp
  finally show ?case by (simp add: power_add)
qed

lemma pack_nat_field:
  "list_all (\<lambda>f. f < 2 ^ bits) fs \<Longrightarrow> k < length fs \<Longrightarrow>
   (pack_nat bits fs div 2 ^ (bits * k)) mod 2 ^ bits = fs ! k"
proof (induction fs arbitrary: k)
  case Nil
  then show ?case by simp
next
  case (Cons f fs)
  then have f: "f < 2 ^ bits" and rest: "list_all (\<lambda>f. f < 2 ^ bits) fs" by simp_all
  show ?case
  proof (cases k)
    case 0
    then show ?thesis using f by simp
  next
    case (Suc j)
    have "(f + 2 ^ bits * pack_nat bits fs) div 2 ^ (bits * Suc j)
            = ((f + 2 ^ bits * pack_nat bits fs) div 2 ^ bits) div 2 ^ (bits * j)"
      by (simp add: power_add div_mult2_eq)
    also have "(f + 2 ^ bits * pack_nat bits fs) div 2 ^ bits = pack_nat bits fs"
      using f by simp
    finally show ?thesis
      using Cons.IH [OF rest, of j] Cons.prems Suc by simp
  qed
qed

lemma decode_pack_word:
  assumes fit: "length vals * bits \<le> k_cBitsForStorageType"
    and bits: "1 \<le> bits"
    and small: "list_all (\<lambda>f. f < 2 ^ bits) vals"
  shows "decode_word (length vals) bits (pack_word bits vals) = vals"
proof (rule nth_equalityI)
  show "length (decode_word (length vals) bits (pack_word bits vals)) = length vals"
    by (simp add: decode_word_def)
next
  fix k
  assume "k < length (decode_word (length vals) bits (pack_word bits vals))"
  then have k: "k < length vals" by (simp add: decode_word_def)
  then have "bits \<le> length vals * bits" by simp
  then have b64: "bits \<le> 64" using fit unfolding k_cBitsForStorageType_def by (rule order_trans)
  have "pack_nat bits vals < 2 ^ (bits * length vals)"
    by (rule pack_nat_bound [OF small])
  also have "\<dots> \<le> (2::nat) ^ 64"
    using fit by (intro power_increasing) (simp_all add: k_cBitsForStorageType_def mult.commute)
  finally have "unat (pack_word bits vals) = pack_nat bits vals"
    by (simp add: pack_word_def unat_of_nat)
  then show "decode_word (length vals) bits (pack_word bits vals) ! k = vals ! k"
    using k pack_nat_field [OF small k] decode_field_nat [OF b64]
    by (simp add: decode_word_def)
qed

lemma decode_index_decode_word:
  assumes "k < in_cItemsPerBitPack inp"
  shows "decode_index inp (j * in_cItemsPerBitPack inp + k)
           = decode_word (in_cItemsPerBitPack inp) (in_cBitsPerItemMax inp) (in_aInputData inp ! j) ! k"
  using assms by (simp add: decode_index_def decode_word_def maskBits_of_def)

text \<open>
  Claim C4 as it is stated, with the field width the minimal number of bits that
  represent \<open>itemsPerWord - 1\<close>: for 64 items to a word that width is 6, and a storage
  word of 64 bits does not hold 64 fields of 6 bits. 64 fields of value 1, stored
  least-significant-first and decoded as the inner loop decodes, do not come back: the
  shift has emptied the word from field 11 on.
\<close>

theorem spec_field_width_counterexample:
  "GetCountBits_spec 64 = 6 \<and>
   list_all (\<lambda>f. f < 2 ^ GetCountBits_spec 64) (replicate 64 (1::nat)) \<and>
   decode_word 64 (GetCountBits_spec 64) (pack_word (GetCountBits_spec 64) (replicate 64 1))
     \<noteq> replicate 64 1"
proof -
  have w: "GetCountBits_spec 64 = 6"
    by (simp add: GetCountBits_spec_def bit_length.simps)
  have "decode_word 64 6 (pack_word 6 (replicate 64 1)) ! 11 = 0"
    by (simp add: decode_word_def)
  moreover have "replicate 64 (1::nat) ! 11 = 1" by simp
  ultimately have "decode_word 64 6 (pack_word 6 (replicate 64 1)) \<noteq> replicate 64 1"
    by (metis zero_neq_one)
  then show ?thesis by (simp add: w list_all_iff)
qed

text \<open>
  Claim C4, amended: the field width is the one \<open>GetCountBits\<close> returned for the pack
  width, at least 1 and below the number of bits of a storage word, so that the shift by
  it is defined, and the fields of a word fit in it. Then the mask has that many
  one-bits, decoding a word gives back the fields
  that were stored in it least-significant-first, sample \<open>j * cItemsPerBitPack + k\<close> is
  given field \<open>k\<close> of word \<open>j\<close>, and the accumulator is the per-sample body run with these
  bin indices, one word consumed for every \<open>cItemsPerBitPack\<close> samples.
\<close>

theorem packed_fields_decode:
  fixes inp :: "('f::{plus,times,zero}) KernelInput"
  assumes ok: "indexed_call_ok inp bins"
    and below: "in_cBitsPerItemMax inp < k_cBitsForStorageType"
    and fit: "in_cItemsPerBitPack inp * in_cBitsPerItemMax inp \<le> k_cBitsForStorageType"
    and enc: "in_aInputData inp ! j = pack_word (in_cBitsPerItemMax inp) vals"
    and len: "length vals = in_cItemsPerBitPack inp"
    and small: "list_all (\<lambda>f. f < 2 ^ in_cBitsPerItemMax inp) vals"
    and k: "k < in_cItemsPerBitPack inp"
  shows "maskBits_of inp = mask (in_cBitsPerItemMax inp) \<and>
         decode_word (in_cItemsPerBitPack inp) (in_cBitsPerItemMax inp) (in_aInputData inp ! j) = vals \<and>
         decode_index inp (j * in_cItemsPerBitPack inp + k) = vals ! k \<and>
         (\<exists>st. BinSumsBoostingInternal_Func inp bins = Inr st \<and>
               pInputData st = count_words inp \<and>
               repeat_step (decode_sample inp) (in_cSamples inp) (init_state bins)
                 = Inr (st\<lparr>pInputData := 0\<rparr>))"
proof -
  have bits: "1 \<le> in_cBitsPerItemMax inp" "in_cBitsPerItemMax inp \<le> 64"
    using ok by (simp_all add: indexed_call_ok_def k_cBitsForStorageType_def)
  have m: "maskBits_of inp = mask (in_cBitsPerItemMax inp)"
    using maskBits_is_mask [OF bits(2)] by (simp add: maskBits_of_def k_cBitsForStorageType_def)
  have d: "decode_word (in_cItemsPerBitPack inp) (in_cBitsPerItemMax inp) (in_aInputData inp ! j) = vals"
    using decode_pack_word [of vals "in_cBitsPerItemMax inp"] fit bits(1) small
    by (simp add: enc len)
  have i: "decode_index inp (j * in_cItemsPerBitPack inp + k) = vals ! k"
    using decode_index_decode_word [OF k, of j] d by simp
  show ?thesis
    using m d i Internal_Func_repeat [OF ok] by blast
qed

theorem packed_fields_decode_witness:
  "indexed_call_ok ex_regression (replicate 4 (zero_bin 1)) \<and>
   in_cBitsPerItemMax ex_regression < k_cBitsForStorageType \<and>
   in_cItemsPerBitPack ex_regression * in_cBitsPerItemMax ex_regression \<le> k_cBitsForStorageType \<and>
   in_aInputData ex_regression ! 0 = pack_word 16 [0, 1, 3, 1] \<and>
   maskBits_of ex_regression = mask 16 \<and>
   decode_word 4 16 (in_aInputData ex_regression ! 0) = [0, 1, 3, 1] \<and>
   decode_index ex_regression 2 = 3 \<and>
   (\<exists>st. BinSumsBoostingInternal_Func ex_regression (replicate 4 (zero_bin 1)) = Inr st \<and>
         pInputData st = 2)"
proof -
  have c: "in_cItemsPerBitPack ex_regression = 4" "in_cBitsPerItemMax ex_regression = 16"
    "count_words ex_regression = 2"
    by (simp_all add: ex_regression_def count_words_def)
  have below: "in_cBitsPerItemMax ex_regression < k_cBitsForStorageType"
    and fit: "in_cItemsPerBitPack ex_regression * in_cBitsPerItemMax ex_regression \<le> k_cBitsForStorageType"
    by (simp_all add: c k_cBitsForStorageType_def)
  have enc: "in_aInputData ex_regression ! 0 = pack_word (in_cBitsPerItemMax ex_regression) [0, 1, 3, 1]"
    by (simp add: ex_regression_def pack_word_def)
  have len: "length [0, 1, 3, 1 :: nat] = in_cItemsPerBitPack ex_regression"
    and small: "list_all (\<lambda>f. f < 2 ^ in_cBitsPerItemMax ex_regression) [0, 1, 3, 1 :: nat]"
    and k: "2 < in_cItemsPerBitPack ex_regression"
    by (simp_all add: c)
  show ?thesis
    using packed_fields_decode [OF ex_regression_ok(1) below fit enc len small k]
      ex_regression_ok(1) below fit enc
    by (auto simp: c numeral_2_eq_2)
qed

subsection \<open>C5: the weight total\<close>










subsection \<open>C6: a single-cell tensor\<close>

text \<open>
  Claim C6. On a buffer of one bin, where every decoded bin index is 0, the indexed
  accumulator returns the state of the zero-dimension accumulator on the same inputs,
  the pointer into the packed words apart: the same bin, field by field, computed by the
  same additions and multiplications in the same order. No law of the arithmetic is used.
\<close>

theorem single_cell_agrees:
  fixes inp :: "('f::{plus,times,zero}) KernelInput"
  assumes "indexed_call_ok inp [b]"
  shows "\<exists>st. BinSumsBoostingZeroDimensions_Func inp [b] = Inr st \<and>
              BinSumsBoostingInternal_Func inp [b] = Inr (st\<lparr>pInputData := count_words inp\<rparr>) \<and>
              length (aBins st) = 1"
proof -
  have sok: "samples_ok inp (decode_index inp) [b]"
    and n: "0 < in_cSamples inp"
    using assms by (simp_all add: indexed_call_ok_def)
  have zero: "decode_index inp i = 0" if "i < in_cSamples inp" for i
    using samples_ok_idx [OF sok that] by simp
  have zok: "zero_call_ok inp [b]"
    using sok n by (simp add: zero_call_ok_def samples_ok_def list_all_iff)
  have "state_after inp (decode_index inp) [b] (in_cSamples inp)
          = state_after inp (\<lambda>i. 0) [b] (in_cSamples inp)"
    by (rule state_after_cong) (rule zero)
  then show ?thesis
    using ZeroDim_Func_correct [OF zok] Internal_Func_correct [OF assms]
    by (simp del: state_after.simps(2))
qed

theorem single_cell_agrees_witness:
  "indexed_call_ok ex_single_cell [zero_bin 3] \<and>
   (\<exists>st. BinSumsBoostingZeroDimensions_Func ex_single_cell [zero_bin 3] = Inr st \<and>
         BinSumsBoostingInternal_Func ex_single_cell [zero_bin 3] = Inr (st\<lparr>pInputData := 1\<rparr>) \<and>
         length (aBins st) = 1)"
proof -
  have ok: "indexed_call_ok ex_single_cell [zero_bin 3]"
    by (simp add: ex_simps ex_single_cell_def)
  have c: "count_words ex_single_cell = 1"
    by (simp add: count_words_def ex_single_cell_def)
  show ?thesis
    using single_cell_agrees [OF ok] ok by (simp add: c)
qed

subsection \<open>C7: the dispatcher\<close>

lemma ZeroDimensionsTarget_closed:
  "BinSumsBoostingZeroDimensionsTarget h c r =
     ZeroDimensions (if c \<le> r \<and> r \<le> k_cCompilerClassesMax h then r else k_dynamicClassification h)"
proof (induction h c r rule: BinSumsBoostingZeroDimensionsTarget.induct)
  case (1 h c r)
  show ?case
  proof (cases "k_cCompilerClassesMax h < c \<or> c = r")
    case True
    then show ?thesis by (subst BinSumsBoostingZeroDimensionsTarget.simps) auto
  next
    case False
    then have "BinSumsBoostingZeroDimensionsTarget h c r
        = BinSumsBoostingZeroDimensionsTarget h (c + 1) r"
      by (subst BinSumsBoostingZeroDimensionsTarget.simps) simp
    also have "\<dots> = ZeroDimensions (if c + 1 \<le> r \<and> r \<le> k_cCompilerClassesMax h then r
                                    else k_dynamicClassification h)"
      using False by (intro "1.IH") auto
    finally show ?thesis using False by auto
  qed
qed

lemma NormalTarget_closed:
  "BinSumsBoostingNormalTarget h c r =
     Internal (if c \<le> r \<and> r \<le> k_cCompilerClassesMax h then r else k_dynamicClassification h)
       (k_cItemsPerBitPackDynamic h)"
proof (induction h c r rule: BinSumsBoostingNormalTarget.induct)
  case (1 h c r)
  show ?case
  proof (cases "k_cCompilerClassesMax h < c \<or> c = r")
    case True
    then show ?thesis by (subst BinSumsBoostingNormalTarget.simps) auto
  next
    case False
    then have "BinSumsBoostingNormalTarget h c r = BinSumsBoostingNormalTarget h (c + 1) r"
      by (subst BinSumsBoostingNormalTarget.simps) simp
    also have "\<dots> = Internal (if c + 1 \<le> r \<and> r \<le> k_cCompilerClassesMax h then r
                              else k_dynamicClassification h) (k_cItemsPerBitPackDynamic h)"
      using False by (intro "1.IH") auto
    finally show ?thesis using False by auto
  qed
qed

lemma SIMDPacking_closed:
  "BinSumsBoostingSIMDPacking h c chain p =
     Internal c (if p \<in> set chain then p else k_cItemsPerBitPackDynamic h)"
  by (induction chain) auto

lemma SIMDTarget_closed:
  "BinSumsBoostingSIMDTarget h c r p =
     Internal (if c \<le> r \<and> r \<le> k_cCompilerClassesMax h then r else k_dynamicClassification h)
       (pack_argument h p)"
proof (induction h c r p rule: BinSumsBoostingSIMDTarget.induct)
  case (1 h c r p)
  show ?case
  proof (cases "k_cCompilerClassesMax h < c \<or> c = r")
    case True
    then show ?thesis
      by (subst BinSumsBoostingSIMDTarget.simps) (auto simp: SIMDPacking_closed pack_argument_def)
  next
    case False
    then have "BinSumsBoostingSIMDTarget h c r p = BinSumsBoostingSIMDTarget h (c + 1) r p"
      by (subst BinSumsBoostingSIMDTarget.simps) simp
    also have "\<dots> = Internal (if c + 1 \<le> r \<and> r \<le> k_cCompilerClassesMax h then r
                              else k_dynamicClassification h) (pack_argument h p)"
      using False by (intro "1.IH") auto
    finally show ?thesis using False by auto
  qed
qed

lemma select_closed:
  "BinSumsBoosting_select h r iTerm p =
     (if k_illegalTermIndex h = iTerm then ZeroDimensions (class_argument h r)
      else Internal (class_argument h r)
             (if k_bUseSIMD h then pack_argument h p else k_cItemsPerBitPackDynamic h))"
  by (simp add: BinSumsBoosting_select_def class_argument_def ZeroDimensionsTarget_closed
        NormalTarget_closed SIMDTarget_closed SIMDPacking_closed pack_argument_def)

lemma GET_ITEMS_pack_argument:
  "GET_ITEMS_PER_BIT_PACK h (pack_argument h p) p = p"
  "GET_ITEMS_PER_BIT_PACK h (k_cItemsPerBitPackDynamic h) p = p"
  by (simp_all add: GET_ITEMS_PER_BIT_PACK_def pack_argument_def)

lemma kernel_input_class_argument:
  assumes "IsClassification h (k_dynamicClassification h)"
  shows "kernel_input h (class_argument h (GetCountClasses core)) core bag ws n
       = kernel_input h (if IsClassification h (GetCountClasses core) then k_dynamicClassification h
                         else k_regression h) core bag ws n"
  using assms by (simp add: kernel_input_def class_argument_def GET_COUNT_CLASSES_def)

lemma run_select_dynamic:
  assumes "IsClassification h (k_dynamicClassification h)"
  shows "run_accumulator h (BinSumsBoosting_select h (GetCountClasses core) iTerm
                              (GetTerms_GetBitPack core ! iTerm)) core bins iTerm bag
       = run_accumulator h (dynamic_instance h (GetCountClasses core) iTerm) core bins iTerm bag"
  by (simp add: select_closed dynamic_instance_def run_accumulator_def GET_ITEMS_pack_argument
        kernel_input_class_argument [OF assms])

lemma BinSumsBoosting_dynamic:
  assumes "IsClassification h (k_dynamicClassification h)"
  shows "BinSumsBoosting h core bins iTerm bag
       = run_accumulator h (dynamic_instance h (GetCountClasses core) iTerm) core bins iTerm bag"
proof (cases "k_illegalTermIndex h = iTerm")
  case True
  then show ?thesis
    by (simp add: BinSumsBoosting_def select_closed dynamic_instance_def run_accumulator_def
          kernel_input_class_argument [OF assms])
next
  case False
  then show ?thesis
    using run_select_dynamic [OF assms, of core iTerm bins bag]
    by (simp add: BinSumsBoosting_def dynamic_instance_def run_accumulator_def)
qed

text \<open>
  Claim C7. The selection of the entry point is total and is the stated decision tree:
  the zero-dimension accumulator for the no-term sentinel, otherwise the indexed one,
  with the pack width of the term as template argument when the vector-instruction flag
  is set and the width is in the chain, and the dynamic pack width otherwise; the class
  argument is the class count when it is among \<open>2..k_cCompilerClassesMax\<close>, the dynamic
  marker for any other classification and the regression marker for regression. The
  call computes what the instance with dynamic arguments computes. The dynamic class
  marker has to count as a classification, as the cascades use it.
\<close>

theorem dispatch_decision_tree:
  fixes core :: "('f::{plus,times,zero}) BoosterCore"
  assumes "IsClassification h (k_dynamicClassification h)"
  shows "BinSumsBoosting_select h cRuntimeClasses iTerm runtimeBitPack =
           (if k_illegalTermIndex h = iTerm then ZeroDimensions (class_argument h cRuntimeClasses)
            else Internal (class_argument h cRuntimeClasses)
                   (if k_bUseSIMD h then pack_argument h runtimeBitPack
                    else k_cItemsPerBitPackDynamic h)) \<and>
         BinSumsBoosting h core bins iTerm bag =
           run_accumulator h (dynamic_instance h (GetCountClasses core) iTerm) core bins iTerm bag"
  using select_closed [of h cRuntimeClasses iTerm runtimeBitPack]
    BinSumsBoosting_dynamic [OF assms, of core bins iTerm bag]
  by simp

theorem dispatch_decision_tree_witness:
  "IsClassification ex_header (k_dynamicClassification ex_header) \<and>
   BinSumsBoosting_select ex_header 3 (k_illegalTermIndex ex_header) 0 = ZeroDimensions 3 \<and>
   BinSumsBoosting_select ex_header 3 0 64 = Internal 3 64 \<and>
   BinSumsBoosting_select ex_header 40 0 20 = Internal 0 0 \<and>
   BinSumsBoosting_select ex_header (- 1) 0 16 = Internal (- 1) 16 \<and>
   BinSumsBoosting_select (ex_header\<lparr>k_bUseSIMD := False\<rparr>) 3 0 64 = Internal 3 0 \<and>
   BinSumsBoosting ex_header ex_core (replicate 2 (zero_bin 3)) 0 ex_bag =
     run_accumulator ex_header (Internal 0 0) ex_core (replicate 2 (zero_bin 3)) 0 ex_bag"
proof -
  have h: "IsClassification ex_header (k_dynamicClassification ex_header)"
    "IsClassification (ex_header\<lparr>k_bUseSIMD := False\<rparr>)
       (k_dynamicClassification (ex_header\<lparr>k_bUseSIMD := False\<rparr>))"
    by (simp_all add: ex_header_def)
  have d: "dynamic_instance ex_header (GetCountClasses ex_core) 0 = Internal 0 0"
    by (simp add: dynamic_instance_def ex_header_def ex_core_def)
  have s1: "BinSumsBoosting_select ex_header 3 (k_illegalTermIndex ex_header) 0 = ZeroDimensions 3"
    using dispatch_decision_tree [OF h(1), of 3 "k_illegalTermIndex ex_header" 0 ex_core "[]" ex_bag]
    by (simp add: class_argument_def ex_header_def)
  have s2: "BinSumsBoosting_select ex_header 3 0 64 = Internal 3 64"
    using dispatch_decision_tree [OF h(1), of 3 0 64 ex_core "[]" ex_bag]
    by (simp add: class_argument_def pack_argument_def ex_header_def)
  have s3: "BinSumsBoosting_select ex_header 40 0 20 = Internal 0 0"
    using dispatch_decision_tree [OF h(1), of 40 0 20 ex_core "[]" ex_bag]
    by (simp add: class_argument_def pack_argument_def ex_header_def)
  have s4: "BinSumsBoosting_select ex_header (- 1) 0 16 = Internal (- 1) 16"
    using dispatch_decision_tree [OF h(1), of "- 1" 0 16 ex_core "[]" ex_bag]
    by (simp add: class_argument_def pack_argument_def ex_header_def)
  have s5: "BinSumsBoosting_select (ex_header\<lparr>k_bUseSIMD := False\<rparr>) 3 0 64 = Internal 3 0"
    using dispatch_decision_tree [OF h(2), of 3 0 64 ex_core "[]" ex_bag]
    by (simp add: class_argument_def pack_argument_def ex_header_def)
  have r: "BinSumsBoosting ex_header ex_core (replicate 2 (zero_bin 3)) 0 ex_bag =
     run_accumulator ex_header (Internal 0 0) ex_core (replicate 2 (zero_bin 3)) 0 ex_bag"
    using dispatch_decision_tree [OF h(1), of 3 0 64 ex_core "replicate 2 (zero_bin 3)" ex_bag]
    by (simp add: d)
  show ?thesis using h(1) s1 s2 s3 s4 s5 r by simp
qed

subsection \<open>C8: the full sample count\<close>

text \<open>
  The loops are total functions. With a field width below the 64 bits of a storage word
  both accumulators return, having run the per-sample body exactly \<open>cSamples\<close> times:
  the occurrence and weight pointers have advanced by \<open>cSamples\<close>, the gradient pointer
  by the whole array, and, in the indexed path, the word pointer by the number of packed
  words.
\<close>

lemma full_pass_below_full_width:
  fixes inp :: "('f::{plus,times,zero}) KernelInput"
  shows "(zero_call_ok inp bins \<longrightarrow>
            (\<exists>st. BinSumsBoostingZeroDimensions_Func inp bins = Inr st \<and> full_pass inp st \<and>
                  repeat_step (ZeroDim_sample inp) (in_cSamples inp) (init_state bins) = Inr st)) \<and>
         (indexed_call_ok inp bins \<longrightarrow>
            (\<exists>st. BinSumsBoostingInternal_Func inp bins = Inr st \<and> full_pass inp st \<and>
                  pInputData st = count_words inp \<and>
                  repeat_step (decode_sample inp) (in_cSamples inp) (init_state bins)
                    = Inr (st\<lparr>pInputData := 0\<rparr>)))"
  using ZeroDim_Func_repeat [of inp bins] Internal_Func_repeat [of inp bins] by blast

text \<open>
  Claim C8. The preconditions it names admit a pack width of 1, and the assertions of
  lines 219-223 a field width of all 64 bits, for which the mask of line 224 is written.
  With one field of 64 bits to a word, line 330 shifts the 64-bit word by 64 after the
  first sample, which is undefined: the call with two such samples does not run to its
  end in defined behaviour.
\<close>

theorem full_width_shift_undefined:
  "indexed_asserts_hold ex_full_width [zero_bin 1] \<and>
   BinSumsBoostingInternal_Func ex_full_width [zero_bin 1] = Inl ShiftOutOfRange"
proof -
  have f: "in_cBitsPerItemMax ex_full_width = 64" "in_aInputData ex_full_width = [0, 0]"
    "in_cSamples ex_full_width = 2" "in_cItemsPerBitPack ex_full_width = 1"
    "in_cScores ex_full_width = 1" "in_bClassification ex_full_width = False"
    by (simp_all add: ex_full_width_def)
  have s: "\<exists>st. Internal_sample ex_full_width 0 (init_state [zero_bin 1]\<lparr>pInputData := 1\<rparr>) = Inr st"
    by (simp add: Internal_sample_def ex_full_width_def init_state_def zero_bin_def
          score_loop.simps stride_def Let_def)
  have "Internal_item_loop ex_full_width (maskBits_of ex_full_width) 0 1
          (init_state [zero_bin 1]\<lparr>pInputData := 1\<rparr>) = Inl ShiftOutOfRange"
    using s
    by (subst Internal_item_loop.simps)
       (auto simp: shift_right_def k_cBitsForStorageType_def f)
  then have "Internal_word_loop ex_full_width (maskBits_of ex_full_width) 2 1 1 (init_state [zero_bin 1])
          = Inl ShiftOutOfRange"
    by (subst Internal_word_loop.simps) (simp add: f init_state_def)
  then show ?thesis
    using ex_full_width_asserts
    by (simp add: BinSumsBoostingInternal_Func_def maskBits_of_def f
          k_cBitsForStorageType_def stride_def Let_def)
qed

subsection \<open>C10: regression leaves the hessians alone\<close>

lemma bin_add_hessians:
  "\<not> in_bClassification inp \<Longrightarrow>
   map m_sumHessians (m_aGradientPairs (bin_add inp i b)) = map m_sumHessians (m_aGradientPairs b)"
  by (rule nth_equalityI) (simp_all add: bin_add_def nth_add_scores add_at_fields)

lemma state_after_hessians:
  assumes "\<not> in_bClassification inp"
  shows "hessians_of (aBins (state_after inp idx bins n)) = hessians_of bins"
proof (induction n)
  case 0
  then show ?case by (simp add: init_state_def)
next
  case (Suc n)
  let ?bs = "aBins (state_after inp idx bins n)"
  have "hessians_of (?bs[idx n := bin_add inp n (?bs ! idx n)]) = hessians_of ?bs"
  proof (cases "idx n < length ?bs")
    case True
    then show ?thesis
      unfolding hessians_of_def
      by (simp add: map_update bin_add_hessians [OF assms] list_update_same_conv)
  next
    case False
    then have "?bs[idx n := bin_add inp n (?bs ! idx n)] = ?bs"
      by (intro list_update_beyond) simp
    then show ?thesis by simp
  qed
  with Suc.IH show ?case by (simp add: Let_def)
qed

text \<open>
  Claim C10. For a regression call both accumulators return with the \<open>sumHessians\<close>
  field of every gradient pair of every bin as it was, and with the gradient pointer
  advanced by one entry for every score of every sample: an array of
  \<open>cScores * cSamples\<close> gradients, with no hessians in it, is all that is read.
\<close>

theorem regression_leaves_hessians:
  fixes inp :: "('f::{plus,times,zero}) KernelInput"
  shows "(zero_call_ok inp bins \<and> \<not> in_bClassification inp \<longrightarrow>
            (\<exists>st. BinSumsBoostingZeroDimensions_Func inp bins = Inr st \<and>
                  hessians_of (aBins st) = hessians_of bins \<and>
                  pGradientAndHessian st = in_cScores inp * in_cSamples inp)) \<and>
         (indexed_call_ok inp bins \<and> \<not> in_bClassification inp \<longrightarrow>
            (\<exists>st. BinSumsBoostingInternal_Func inp bins = Inr st \<and>
                  hessians_of (aBins st) = hessians_of bins \<and>
                  pGradientAndHessian st = in_cScores inp * in_cSamples inp))"
proof (intro conjI impI; elim conjE)
  assume ok: "zero_call_ok inp bins" and r: "\<not> in_bClassification inp"
  show "\<exists>st. BinSumsBoostingZeroDimensions_Func inp bins = Inr st \<and>
             hessians_of (aBins st) = hessians_of bins \<and>
             pGradientAndHessian st = in_cScores inp * in_cSamples inp"
    using ZeroDim_Func_correct [OF ok] state_after_hessians [OF r] r
    by (simp add: stride_def del: state_after.simps(2))
next
  assume ok: "indexed_call_ok inp bins" and r: "\<not> in_bClassification inp"
  show "\<exists>st. BinSumsBoostingInternal_Func inp bins = Inr st \<and>
             hessians_of (aBins st) = hessians_of bins \<and>
             pGradientAndHessian st = in_cScores inp * in_cSamples inp"
    using Internal_Func_correct [OF ok] state_after_hessians [OF r] r
    by (simp add: stride_def del: state_after.simps(2))
qed

theorem regression_leaves_hessians_witness:
  "zero_call_ok ex_regression ex_marked_bins \<and>
   indexed_call_ok ex_regression ex_marked_bins \<and>
   \<not> in_bClassification ex_regression \<and>
   length (in_aGradientsAndHessians ex_regression) = 5 \<and>
   (\<exists>st. BinSumsBoostingZeroDimensions_Func ex_regression ex_marked_bins = Inr st \<and>
         hessians_of (aBins st) = [[7], [7], [7], [7]] \<and> pGradientAndHessian st = 5) \<and>
   (\<exists>st. BinSumsBoostingInternal_Func ex_regression ex_marked_bins = Inr st \<and>
         hessians_of (aBins st) = [[7], [7], [7], [7]] \<and> pGradientAndHessian st = 5)"
proof -
  have ok: "zero_call_ok ex_regression ex_marked_bins"
    "indexed_call_ok ex_regression ex_marked_bins"
    by (simp_all add: ex_simps ex_regression_def ex_marked_bins_def
          and.commute [of "mask 16"] flip: take_bit_eq_mask)
  have c: "\<not> in_bClassification ex_regression"
    "length (in_aGradientsAndHessians ex_regression) = 5"
    "in_cScores ex_regression * in_cSamples ex_regression = 5"
    "hessians_of ex_marked_bins = [[7], [7], [7], [7]]"
    by (simp_all add: ex_regression_def hessians_of_def ex_marked_bins_def eval_nat_numeral)
  show ?thesis
    using regression_leaves_hessians [of ex_regression ex_marked_bins] ok c
    by auto
qed

end
